theory Spec2Isabelle
  imports Complex_Main "HOL-Library.AList"
begin

section \<open>JavaScript numbers\<close>

text \<open>
  The estimator computes with JavaScript numbers. They are modelled as exact reals
  extended with \<open>Infinity\<close>, \<open>-Infinity\<close> and \<open>NaN\<close>, with the arithmetic of
  ECMAScript on these values. Rounding of IEEE doubles, overflow and the sign of zero
  are not part of the model (a zero is always \<open>+0\<close>).
\<close>

datatype jsnum = Num real | PosInf | NegInf | NaN

fun js_neg :: "jsnum \<Rightarrow> jsnum" where
  "js_neg (Num a) = Num (- a)"
| "js_neg PosInf = NegInf"
| "js_neg NegInf = PosInf"
| "js_neg NaN = NaN"

fun js_add :: "jsnum \<Rightarrow> jsnum \<Rightarrow> jsnum" where
  "js_add (Num a) (Num b) = Num (a + b)"
| "js_add (Num a) PosInf = PosInf"
| "js_add (Num a) NegInf = NegInf"
| "js_add PosInf (Num b) = PosInf"
| "js_add PosInf PosInf = PosInf"
| "js_add PosInf NegInf = NaN"
| "js_add NegInf (Num b) = NegInf"
| "js_add NegInf PosInf = NaN"
| "js_add NegInf NegInf = NegInf"
| "js_add NaN b = NaN"
| "js_add a NaN = NaN"

definition js_sub :: "jsnum \<Rightarrow> jsnum \<Rightarrow> jsnum" where
  "js_sub a b = js_add a (js_neg b)"

fun js_mul :: "jsnum \<Rightarrow> jsnum \<Rightarrow> jsnum" where
  "js_mul (Num a) (Num b) = Num (a * b)"
| "js_mul (Num a) PosInf = (if a = 0 then NaN else if 0 < a then PosInf else NegInf)"
| "js_mul (Num a) NegInf = (if a = 0 then NaN else if 0 < a then NegInf else PosInf)"
| "js_mul PosInf (Num b) = (if b = 0 then NaN else if 0 < b then PosInf else NegInf)"
| "js_mul NegInf (Num b) = (if b = 0 then NaN else if 0 < b then NegInf else PosInf)"
| "js_mul PosInf PosInf = PosInf"
| "js_mul PosInf NegInf = NegInf"
| "js_mul NegInf PosInf = NegInf"
| "js_mul NegInf NegInf = PosInf"
| "js_mul NaN b = NaN"
| "js_mul a NaN = NaN"

fun js_div :: "jsnum \<Rightarrow> jsnum \<Rightarrow> jsnum" where
  "js_div (Num a) (Num b) =
     (if b = 0 then (if a = 0 then NaN else if 0 < a then PosInf else NegInf)
      else Num (a / b))"
| "js_div (Num a) PosInf = Num 0"
| "js_div (Num a) NegInf = Num 0"
| "js_div PosInf (Num b) = (if 0 \<le> b then PosInf else NegInf)"
| "js_div NegInf (Num b) = (if 0 \<le> b then NegInf else PosInf)"
| "js_div PosInf PosInf = NaN"
| "js_div PosInf NegInf = NaN"
| "js_div NegInf PosInf = NaN"
| "js_div NegInf NegInf = NaN"
| "js_div NaN b = NaN"
| "js_div a NaN = NaN"

text \<open>The comparisons \<open><\<close> and \<open><=\<close>; both are false as soon as one side is \<open>NaN\<close>.\<close>

fun js_lt :: "jsnum \<Rightarrow> jsnum \<Rightarrow> bool" where
  "js_lt (Num a) (Num b) = (a < b)"
| "js_lt (Num a) PosInf = True"
| "js_lt (Num a) NegInf = False"
| "js_lt PosInf b = False"
| "js_lt NegInf (Num b) = True"
| "js_lt NegInf PosInf = True"
| "js_lt NegInf NegInf = False"
| "js_lt NaN b = False"
| "js_lt a NaN = False"

fun js_le :: "jsnum \<Rightarrow> jsnum \<Rightarrow> bool" where
  "js_le (Num a) (Num b) = (a \<le> b)"
| "js_le (Num a) PosInf = True"
| "js_le (Num a) NegInf = False"
| "js_le PosInf (Num b) = False"
| "js_le PosInf PosInf = True"
| "js_le PosInf NegInf = False"
| "js_le NegInf (Num b) = True"
| "js_le NegInf PosInf = True"
| "js_le NegInf NegInf = True"
| "js_le NaN b = False"
| "js_le a NaN = False"

definition js_gt :: "jsnum \<Rightarrow> jsnum \<Rightarrow> bool" where
  "js_gt a b = js_lt b a"

definition js_ge :: "jsnum \<Rightarrow> jsnum \<Rightarrow> bool" where
  "js_ge a b = js_le b a"

text \<open>\<open>a === b\<close> on numbers.\<close>

fun js_eq :: "jsnum \<Rightarrow> jsnum \<Rightarrow> bool" where
  "js_eq (Num a) (Num b) = (a = b)"
| "js_eq PosInf PosInf = True"
| "js_eq NegInf NegInf = True"
| "js_eq a b = False"

text \<open>\<open>Math.min\<close>, \<open>Math.max\<close>, \<open>Math.floor\<close>, \<open>Math.ceil\<close>, \<open>Number.isFinite\<close>
  and the truthiness of a number (\<open>0\<close> and \<open>NaN\<close> are falsy).\<close>

fun js_min :: "jsnum \<Rightarrow> jsnum \<Rightarrow> jsnum" where
  "js_min NaN b = NaN"
| "js_min a NaN = NaN"
| "js_min a b = (if js_le a b then a else b)"

fun js_max :: "jsnum \<Rightarrow> jsnum \<Rightarrow> jsnum" where
  "js_max NaN b = NaN"
| "js_max a NaN = NaN"
| "js_max a b = (if js_le a b then b else a)"

fun js_floor :: "jsnum \<Rightarrow> jsnum" where
  "js_floor (Num a) = Num (of_int \<lfloor>a\<rfloor>)"
| "js_floor a = a"

fun js_ceil :: "jsnum \<Rightarrow> jsnum" where
  "js_ceil (Num a) = Num (of_int \<lceil>a\<rceil>)"
| "js_ceil a = a"

fun js_isFinite :: "jsnum \<Rightarrow> bool" where
  "js_isFinite (Num a) = True"
| "js_isFinite a = False"

fun js_truthy :: "jsnum \<Rightarrow> bool" where
  "js_truthy (Num a) = (a \<noteq> 0)"
| "js_truthy PosInf = True"
| "js_truthy NegInf = True"
| "js_truthy NaN = False"

section \<open>The TCP connection model (tcp-connection.js)\<close>

definition INITIAL_CONGESTION_WINDOW :: jsnum where
  "INITIAL_CONGESTION_WINDOW = Num 10"

definition TCP_SEGMENT_SIZE :: jsnum where
  "TCP_SEGMENT_SIZE = Num 1460"

record TcpConnection =
  warmed :: bool
  ssl :: bool
  rtt :: jsnum
  availableThroughput :: jsnum
  responseTime :: jsnum
  congestionWindow :: jsnum

text \<open>The constructor \<open>new TcpConnection(rtt, throughput, responseTime, ssl)\<close>.\<close>

definition new_TcpConnection :: "jsnum \<Rightarrow> jsnum \<Rightarrow> jsnum \<Rightarrow> bool \<Rightarrow> TcpConnection" where
  "new_TcpConnection rtt0 throughput responseTime0 ssl0 =
     \<lparr> warmed = False, ssl = ssl0, rtt = rtt0, availableThroughput = throughput,
       responseTime = responseTime0, congestionWindow = INITIAL_CONGESTION_WINDOW \<rparr>"

definition maximumSaturatedConnections :: "jsnum \<Rightarrow> jsnum \<Rightarrow> jsnum" where
  "maximumSaturatedConnections rtt0 availableThroughput0 =
     (let roundTripsPerSecond = js_div (Num 1000) rtt0;
          bytesPerRoundTrip = TCP_SEGMENT_SIZE;
          bytesPerSecond = js_mul roundTripsPerSecond bytesPerRoundTrip;
          minimumThroughputRequiredPerRequest = js_mul bytesPerSecond (Num 8)
      in js_floor (js_div availableThroughput0 minimumThroughputRequiredPerRequest))"

definition computeMaximumCongestionWindowInSegments :: "TcpConnection \<Rightarrow> jsnum" where
  "computeMaximumCongestionWindowInSegments c =
     (let bytesPerSecond = js_div (availableThroughput c) (Num 8);
          secondsPerRoundTrip = js_div (rtt c) (Num 1000);
          bytesPerRoundTrip = js_mul bytesPerSecond secondsPerRoundTrip
      in js_floor (js_div bytesPerRoundTrip TCP_SEGMENT_SIZE))"

text \<open>The setters: each returns the connection after the assignment.\<close>

definition setThroughput :: "jsnum \<Rightarrow> TcpConnection \<Rightarrow> TcpConnection" where
  "setThroughput throughput c = c\<lparr>availableThroughput := throughput\<rparr>"

definition setCongestionWindow :: "jsnum \<Rightarrow> TcpConnection \<Rightarrow> TcpConnection" where
  "setCongestionWindow congestion c = c\<lparr>congestionWindow := congestion\<rparr>"

definition setWarmed :: "bool \<Rightarrow> TcpConnection \<Rightarrow> TcpConnection" where
  "setWarmed v c = c\<lparr>warmed := v\<rparr>"

text \<open>The object returned by \<open>calculateTimeToDownload\<close>.\<close>

record calculation =
  r_roundTrips :: jsnum
  r_timeElapsed :: jsnum
  r_bytesDownloaded :: jsnum
  r_congestionWindow :: jsnum

text \<open>
  The first part of \<open>calculateTimeToDownload\<close>: the cost of the handshake and of the
  request, the time to the first byte, and the part of it this call still charges.
\<close>

definition handshakeAndRequest :: "TcpConnection \<Rightarrow> jsnum" where
  "handshakeAndRequest c =
     (let twoWayLatency = rtt c;
          oneWayLatency = js_div twoWayLatency (Num 2)
      in if \<not> warmed c
         then js_add (js_add (js_add oneWayLatency oneWayLatency) oneWayLatency)
                (if ssl c then twoWayLatency else Num 0)
         else oneWayLatency)"

definition timeToFirstByte :: "TcpConnection \<Rightarrow> jsnum" where
  "timeToFirstByte c =
     js_add (js_add (handshakeAndRequest c) (responseTime c)) (js_div (rtt c) (Num 2))"

definition timeElapsedForTTFB :: "TcpConnection \<Rightarrow> jsnum \<Rightarrow> jsnum" where
  "timeElapsedForTTFB c timeAlreadyElapsed =
     js_max (js_sub (timeToFirstByte c) timeAlreadyElapsed) (Num 0)"

text \<open>
  The variables of the \<open>while\<close> loop: \<open>(roundTrips, downloadTimeElapsed,
  congestionWindow, bytesDownloaded, bytesRemaining)\<close>, its condition and its body.
\<close>

type_synonym loop_vars = "jsnum \<times> jsnum \<times> jsnum \<times> jsnum \<times> jsnum"

definition loop_cond :: "jsnum \<Rightarrow> loop_vars \<Rightarrow> bool" where
  "loop_cond maximumDownloadTimeToElapse s =
     (case s of (roundTrips, downloadTimeElapsed, cw, bytesDownloaded0, bytesRemaining) \<Rightarrow>
        js_gt bytesRemaining (Num 0) \<and> js_le downloadTimeElapsed maximumDownloadTimeToElapse)"

definition loop_body :: "jsnum \<Rightarrow> jsnum \<Rightarrow> loop_vars \<Rightarrow> loop_vars" where
  "loop_body twoWayLatency maximumCongestionWindow s =
     (case s of (roundTrips, downloadTimeElapsed, cw, bytesDownloaded0, bytesRemaining) \<Rightarrow>
        (let cw' = js_max (js_min maximumCongestionWindow (js_mul cw (Num 2))) (Num 1);
             bytesDownloadedInWindow = js_mul cw' TCP_SEGMENT_SIZE
         in (js_add roundTrips (Num 1),
             js_add downloadTimeElapsed twoWayLatency,
             cw',
             js_add bytesDownloaded0 bytesDownloadedInWindow,
             js_sub bytesRemaining bytesDownloadedInWindow)))"

text \<open>The loop may run forever (an infinite number of bytes to download): \<open>None\<close>.\<close>

partial_function (option) download_loop ::
  "jsnum \<Rightarrow> jsnum \<Rightarrow> jsnum \<Rightarrow> loop_vars \<Rightarrow> loop_vars option" where
  "download_loop twoWayLatency maximumCongestionWindow maximumDownloadTimeToElapse s =
     (if loop_cond maximumDownloadTimeToElapse s
      then download_loop twoWayLatency maximumCongestionWindow maximumDownloadTimeToElapse
             (loop_body twoWayLatency maximumCongestionWindow s)
      else Some s)"

declare download_loop.simps [code]

text \<open>
  \<open>calculateTimeToDownload(bytesToDownload, timeAlreadyElapsed, maximumTimeToElapse)\<close>:
  the values of the variables when the loop starts, then the loop and the object returned.
  The method is modelled with the connection passed through it: it returns the object it
  computes and the connection as the call leaves it. The two \<open>return\<close> statements of the
  source return the same object.
\<close>

definition initial_loop_vars :: "TcpConnection \<Rightarrow> jsnum \<Rightarrow> jsnum \<Rightarrow> loop_vars" where
  "initial_loop_vars c bytesToDownload timeAlreadyElapsed =
     (let twoWayLatency = rtt c;
          maximumCongestionWindow = computeMaximumCongestionWindowInSegments c;
          roundTrips0 = js_ceil (js_div (handshakeAndRequest c) twoWayLatency);
          ttfb = timeElapsedForTTFB c timeAlreadyElapsed;
          cw0 = js_min (congestionWindow c) maximumCongestionWindow;
          bytesDownloaded0 = (if js_gt ttfb (Num 0) then js_mul cw0 TCP_SEGMENT_SIZE else Num 0);
          roundTrips1 = (if js_gt ttfb (Num 0) then roundTrips0 else Num 0);
          downloadTimeElapsed0 = Num 0;
          bytesRemaining0 = js_sub bytesToDownload bytesDownloaded0
      in (roundTrips1, downloadTimeElapsed0, cw0, bytesDownloaded0, bytesRemaining0))"

definition calculateTimeToDownload ::
  "TcpConnection \<Rightarrow> jsnum \<Rightarrow> jsnum \<Rightarrow> jsnum \<Rightarrow> (calculation \<times> TcpConnection) option" where
  "calculateTimeToDownload c bytesToDownload timeAlreadyElapsed maximumTimeToElapse =
     (let ttfb = timeElapsedForTTFB c timeAlreadyElapsed;
          maximumDownloadTimeToElapse = js_sub maximumTimeToElapse ttfb
      in case download_loop (rtt c) (computeMaximumCongestionWindowInSegments c)
                maximumDownloadTimeToElapse
                (initial_loop_vars c bytesToDownload timeAlreadyElapsed) of
           None \<Rightarrow> None
         | Some (roundTrips, downloadTimeElapsed, cw, bytesDownloaded1, bytesRemaining) \<Rightarrow>
             Some (\<lparr> r_roundTrips = roundTrips,
                     r_timeElapsed = js_add ttfb downloadTimeElapsed,
                     r_bytesDownloaded = js_min bytesDownloaded1 bytesToDownload,
                     r_congestionWindow = cw \<rparr>, c))"

section \<open>The dependency graph\<close>

text \<open>
  A network record, with the fields the estimator reads: \<open>record.connectionId\<close>,
  \<open>record.transferSize\<close>, \<open>record.parsedURL.scheme\<close> and \<open>record._timing\<close>
  (\<open>None\<close> when the record has no timing).
\<close>

type_synonym node_id = nat
type_synonym connection_id = nat

record Timing =
  sendEnd :: jsnum
  receiveHeadersEnd :: jsnum

record NetworkRecord =
  connectionId :: connection_id
  transferSize :: jsnum
  scheme :: string
  timing :: "Timing option"

text \<open>
  Modelled from the spec: the class \<open>Node\<close> (\<open>../node\<close>) is not part of the sources.
  A node has a kind, \<open>NETWORK\<close> with its record or \<open>CPU\<close>, and the lists
  \<open>getDependencies()\<close> and \<open>getDependents()\<close>; nodes are identified by reference, here
  by a number. A graph gives its root node and its nodes; \<open>traversal\<close> is the order in
  which \<open>getRootNode().traverse\<close> visits the nodes.
\<close>

datatype node_kind = NETWORK NetworkRecord | CPU

record Node =
  kind :: node_kind
  dependencies :: "node_id list"
  dependents :: "node_id list"

record Graph =
  rootNode :: node_id
  node :: "node_id \<Rightarrow> Node"
  traversal :: "node_id list"

section \<open>The estimator\<close>

definition DEFAULT_MAXIMUM_CONCURRENT_REQUESTS :: jsnum where
  "DEFAULT_MAXIMUM_CONCURRENT_REQUESTS = Num 10"

definition DEFAULT_RESPONSE_TIME :: jsnum where
  "DEFAULT_RESPONSE_TIME = Num 30"

definition DEFAULT_RTT :: jsnum where
  "DEFAULT_RTT = Num 150"

definition DEFAULT_THROUGHPUT :: jsnum where
  "DEFAULT_THROUGHPUT = js_mul (Num 1600) (Num 1024)"

text \<open>What the estimator throws. \<open>TypeError\<close> is what JavaScript raises on a property
  access on \<open>undefined\<close>.\<close>

datatype error = Unsupported | MaximumDepthExceeded | TypeError

text \<open>
  The result of a computation that may throw or not return: \<open>None\<close> when it does not
  return, \<open>Some (Inl e)\<close> when it throws \<open>e\<close>, \<open>Some (Inr x)\<close> when it returns \<open>x\<close>.
\<close>

type_synonym 'a result = "(error + 'a) option"

definition bind_result :: "'a result \<Rightarrow> ('a \<Rightarrow> 'b result) \<Rightarrow> 'b result" where
  "bind_result m f = (case m of None \<Rightarrow> None | Some (Inl e) \<Rightarrow> Some (Inl e) | Some (Inr x) \<Rightarrow> f x)"

text \<open>A \<open>for ... of\<close> loop over the elements \<open>xs\<close> whose body may throw.\<close>

fun for_each :: "('a \<Rightarrow> 's \<Rightarrow> 's result) \<Rightarrow> 'a list \<Rightarrow> 's \<Rightarrow> 's result" where
  "for_each f [] s = Some (Inr s)"
| "for_each f (x # xs) s = bind_result (f x s) (for_each f xs)"

text \<open>A JavaScript \<open>Set\<close>, in insertion order: \<open>add\<close>, \<open>delete\<close>; \<open>has\<close> is membership
  and \<open>size\<close> the length.\<close>

definition set_add :: "'a \<Rightarrow> 'a list \<Rightarrow> 'a list" where
  "set_add x xs = (if x \<in> set xs then xs else xs @ [x])"

definition set_delete :: "'a \<Rightarrow> 'a list \<Rightarrow> 'a list" where
  "set_delete x xs = removeAll x xs"

text \<open>The options given to the constructor; \<open>None\<close> is a key that is absent.\<close>

record Options =
  o_rtt :: "jsnum option"
  o_throughput :: "jsnum option"
  o_defaultResponseTime :: "jsnum option"
  o_maximumConcurrentRequests :: "jsnum option"

record AuxiliaryData =
  startTime :: jsnum
  timeElapsed :: jsnum
  timeElapsedOvershoot :: jsnum
  bytesDownloaded :: jsnum
  estimatedTimeElapsed :: "jsnum option"
  endTime :: "jsnum option"

text \<open>
  The estimator object. A connection object is identified by the connection id under
  which \<open>_connections\<close> holds it; \<open>_connectionsInUse\<close> is a set of connection objects
  and may hold \<open>undefined\<close> (\<open>None\<close>), the value of \<open>_connections.get\<close> for an unknown id.
\<close>

record Estimator =
  graph :: Graph
  e_rtt :: jsnum
  e_throughput :: jsnum
  e_defaultResponseTime :: jsnum
  e_maximumConcurrentRequests :: jsnum
  networkRecords :: "NetworkRecord list"
  connections :: "connection_id \<Rightarrow> TcpConnection option"
  nodeAuxiliaryData :: "node_id \<Rightarrow> AuxiliaryData option"
  nodesCompleted :: "node_id list"
  nodesInProcess :: "node_id list"
  nodesInQueue :: "node_id list"
  connectionsInUse :: "connection_id option list"

definition new_Estimator :: "Graph \<Rightarrow> Options \<Rightarrow> Estimator" where
  "new_Estimator g options =
     (let rtt0 = (case o_rtt options of None \<Rightarrow> DEFAULT_RTT | Some v \<Rightarrow> v);
          throughput0 = (case o_throughput options of None \<Rightarrow> DEFAULT_THROUGHPUT | Some v \<Rightarrow> v);
          defaultResponseTime0 =
            (case o_defaultResponseTime options of None \<Rightarrow> DEFAULT_RESPONSE_TIME | Some v \<Rightarrow> v);
          maximumConcurrentRequests0 =
            (case o_maximumConcurrentRequests options of
               None \<Rightarrow> DEFAULT_MAXIMUM_CONCURRENT_REQUESTS | Some v \<Rightarrow> v)
      in \<lparr> graph = g, e_rtt = rtt0, e_throughput = throughput0,
           e_defaultResponseTime = defaultResponseTime0,
           e_maximumConcurrentRequests =
             js_min (maximumSaturatedConnections rtt0 throughput0) maximumConcurrentRequests0,
           networkRecords = [], connections = Map.empty, nodeAuxiliaryData = Map.empty,
           nodesCompleted = [], nodesInProcess = [], nodesInQueue = [],
           connectionsInUse = [] \<rparr>)"

text \<open>\<open>(timing && timing.receiveHeadersEnd - timing.sendEnd) || Infinity\<close>\<close>

definition getResponseTime :: "NetworkRecord \<Rightarrow> jsnum" where
  "getResponseTime record =
     (case timing record of
        None \<Rightarrow> PosInf
      | Some t \<Rightarrow>
          (let v = js_sub (receiveHeadersEnd t) (sendEnd t)
           in if js_truthy v then v else PosInf))"

text \<open>\<open>groupBy\<close>: a \<open>Map\<close> from keys to groups, as an association list in insertion
  order.\<close>

definition groupBy :: "'a list \<Rightarrow> ('a \<Rightarrow> 'k) \<Rightarrow> ('k \<times> 'a list) list" where
  "groupBy items keyFunc =
     fold (\<lambda>item grouped.
            (let key = keyFunc item;
                 group = (case map_of grouped key of None \<Rightarrow> [] | Some g \<Rightarrow> g)
             in AList.update key (group @ [item]) grouped))
       items []"

definition initializeNetworkRecords :: "Estimator \<Rightarrow> Estimator" where
  "initializeNetworkRecords e =
     e\<lparr>networkRecords :=
         concat (map (\<lambda>n. case kind (node (graph e) n) of NETWORK record \<Rightarrow> [record] | CPU \<Rightarrow> [])
                   (traversal (graph e)))\<rparr>"

text \<open>The connection made for one group of records.\<close>

definition connectionForRecords :: "Estimator \<Rightarrow> NetworkRecord list \<Rightarrow> TcpConnection result" where
  "connectionForRecords e records =
     (case records of
        [] \<Rightarrow> Some (Inl TypeError)
      | first # _ \<Rightarrow>
          (let isSsl = (scheme first = ''https'');
               responseTime0 = fold (\<lambda>record m. js_min m (getResponseTime record)) records PosInf;
               responseTime1 =
                 (if \<not> js_isFinite responseTime0 then e_defaultResponseTime e else responseTime0)
           in Some (Inr (new_TcpConnection (e_rtt e) (e_throughput e) responseTime1 isSsl))))"

definition initializeNetworkConnections :: "Estimator \<Rightarrow> Estimator result" where
  "initializeNetworkConnections e =
     bind_result
       (for_each
          (\<lambda>(connectionId0, records) conns.
             bind_result (connectionForRecords e records)
               (\<lambda>connection. Some (Inr (conns(connectionId0 \<mapsto> connection)))))
          (groupBy (networkRecords e) connectionId) Map.empty)
       (\<lambda>conns. Some (Inr (e\<lparr>connections := conns\<rparr>)))"

definition initializeAuxiliaryData :: "Estimator \<Rightarrow> Estimator" where
  "initializeAuxiliaryData e =
     e\<lparr>nodeAuxiliaryData := Map.empty, nodesCompleted := [], nodesInProcess := [],
       nodesInQueue := [], connectionsInUse := []\<rparr>"

definition enqueueNodeIfPossible :: "node_id \<Rightarrow> Estimator \<Rightarrow> Estimator" where
  "enqueueNodeIfPossible n e =
     (let deps = dependencies (node (graph e) n)
      in if n \<notin> set (nodesCompleted e) \<and> list_all (\<lambda>d. d \<in> set (nodesCompleted e)) deps
         then e\<lparr>nodesInQueue := set_add n (nodesInQueue e)\<rparr>
         else e)"

text \<open>The connection object \<open>this._connections.get(id)\<close>, as a member of
  \<open>_connectionsInUse\<close>.\<close>

definition connectionRef :: "Estimator \<Rightarrow> connection_id \<Rightarrow> connection_id option" where
  "connectionRef e cid = (case connections e cid of None \<Rightarrow> None | Some c \<Rightarrow> Some cid)"

definition startNodeIfPossible :: "jsnum \<Rightarrow> node_id \<Rightarrow> Estimator \<Rightarrow> Estimator" where
  "startNodeIfPossible totalElapsedTime n e =
     (case kind (node (graph e) n) of
        CPU \<Rightarrow> e
      | NETWORK record \<Rightarrow>
          (let connection = connectionRef e (connectionId record)
           in if js_ge (Num (real (length (nodesInProcess e)))) (e_maximumConcurrentRequests e)
                 \<or> connection \<in> set (connectionsInUse e)
              then e
              else e\<lparr>nodesInQueue := set_delete n (nodesInQueue e),
                     nodesInProcess := set_add n (nodesInProcess e),
                     nodeAuxiliaryData := (nodeAuxiliaryData e)(n \<mapsto>
                        \<lparr> startTime = totalElapsedTime, timeElapsed = Num 0,
                          timeElapsedOvershoot = Num 0, bytesDownloaded = Num 0,
                          estimatedTimeElapsed = None, endTime = None \<rparr>),
                     connectionsInUse := set_add connection (connectionsInUse e)\<rparr>))"

text \<open>The body of the loop of \<open>_updateNetworkCapacity\<close>, and the method.\<close>

definition setConnectionThroughput :: "connection_id option \<Rightarrow> Estimator \<Rightarrow> Estimator result" where
  "setConnectionThroughput connection e =
     (case connection of
        None \<Rightarrow> Some (Inl TypeError)
      | Some cid \<Rightarrow>
          (case connections e cid of
             None \<Rightarrow> Some (Inl TypeError)
           | Some c \<Rightarrow>
               Some (Inr (e\<lparr>connections := (connections e)(cid \<mapsto>
                 setThroughput
                   (js_div (e_throughput e) (Num (real (length (nodesInProcess e))))) c)\<rparr>))))"

definition updateNetworkCapacity :: "Estimator \<Rightarrow> Estimator result" where
  "updateNetworkCapacity e = for_each setConnectionThroughput (connectionsInUse e) e"

definition estimateTimeRemaining :: "node_id \<Rightarrow> Estimator \<Rightarrow> (jsnum \<times> Estimator) result" where
  "estimateTimeRemaining n e =
     (case kind (node (graph e) n) of
        CPU \<Rightarrow> Some (Inl Unsupported)
      | NETWORK record \<Rightarrow>
          (case nodeAuxiliaryData e n of
             None \<Rightarrow> Some (Inl TypeError)
           | Some auxiliaryData \<Rightarrow>
               (case connections e (connectionId record) of
                  None \<Rightarrow> Some (Inl TypeError)
                | Some connection \<Rightarrow>
                    (case calculateTimeToDownload connection
                            (js_sub (transferSize record) (bytesDownloaded auxiliaryData))
                            (timeElapsed auxiliaryData) PosInf of
                       None \<Rightarrow> None
                     | Some (calc, connection') \<Rightarrow>
                         (let estimate = js_add (r_timeElapsed calc)
                                (timeElapsedOvershoot auxiliaryData)
                          in Some (Inr (estimate,
                               e\<lparr>connections := (connections e)(connectionId record \<mapsto> connection'),
                                 nodeAuxiliaryData := (nodeAuxiliaryData e)(n \<mapsto>
                                   auxiliaryData\<lparr>estimatedTimeElapsed := Some estimate\<rparr>)\<rparr>)))))))"

text \<open>The body of the loop of \<open>_findNextNodeCompletionTime\<close>, on the minimum so far
  and the estimator, and the method.\<close>

definition nextCompletionStep ::
  "node_id \<Rightarrow> jsnum \<times> Estimator \<Rightarrow> (jsnum \<times> Estimator) result" where
  "nextCompletionStep n s =
     (case s of (minimumTime, e) \<Rightarrow>
        bind_result (estimateTimeRemaining n e)
          (\<lambda>(estimate, e'). Some (Inr (js_min minimumTime estimate, e'))))"

definition findNextNodeCompletionTime :: "Estimator \<Rightarrow> (jsnum \<times> Estimator) result" where
  "findNextNodeCompletionTime e = for_each nextCompletionStep (nodesInProcess e) (PosInf, e)"

text \<open>The two branches of \<open>_updateProgressMadeInTimePeriod\<close>: the node is complete, or
  it has made partial progress. \<open>connection1\<close> is the connection after
  \<open>setCongestionWindow\<close>.\<close>

definition completeNode ::
  "jsnum \<Rightarrow> node_id \<Rightarrow> NetworkRecord \<Rightarrow> AuxiliaryData \<Rightarrow> TcpConnection \<Rightarrow> Estimator \<Rightarrow> Estimator" where
  "completeNode totalElapsedTime n record auxiliaryData connection1 e =
     (let e1 = e\<lparr>
            connections := (connections e)(connectionId record \<mapsto> setWarmed True connection1),
            nodeAuxiliaryData := (nodeAuxiliaryData e)(n \<mapsto>
              auxiliaryData\<lparr>endTime := Some totalElapsedTime\<rparr>),
            nodesCompleted := set_add n (nodesCompleted e),
            nodesInProcess := set_delete n (nodesInProcess e),
            connectionsInUse := set_delete (Some (connectionId record)) (connectionsInUse e)\<rparr>
      in fold enqueueNodeIfPossible (dependents (node (graph e) n)) e1)"

definition recordProgress ::
  "jsnum \<Rightarrow> node_id \<Rightarrow> NetworkRecord \<Rightarrow> AuxiliaryData \<Rightarrow> calculation \<Rightarrow> TcpConnection \<Rightarrow>
   Estimator \<Rightarrow> Estimator" where
  "recordProgress timePeriodLength n record auxiliaryData calc connection1 e =
     e\<lparr>connections := (connections e)(connectionId record \<mapsto> connection1),
       nodeAuxiliaryData := (nodeAuxiliaryData e)(n \<mapsto>
         auxiliaryData\<lparr>
           timeElapsed := js_add (timeElapsed auxiliaryData) (r_timeElapsed calc),
           timeElapsedOvershoot := js_add (timeElapsedOvershoot auxiliaryData)
             (js_sub (r_timeElapsed calc) timePeriodLength),
           bytesDownloaded := js_add (bytesDownloaded auxiliaryData) (r_bytesDownloaded calc)\<rparr>)\<rparr>"

definition updateProgressMadeInTimePeriod ::
  "jsnum \<Rightarrow> jsnum \<Rightarrow> node_id \<Rightarrow> Estimator \<Rightarrow> Estimator result" where
  "updateProgressMadeInTimePeriod timePeriodLength totalElapsedTime n e =
     (case kind (node (graph e) n) of
        CPU \<Rightarrow> Some (Inl Unsupported)
      | NETWORK record \<Rightarrow>
          (case nodeAuxiliaryData e n of
             None \<Rightarrow> Some (Inl TypeError)
           | Some auxiliaryData \<Rightarrow>
               (case connections e (connectionId record) of
                  None \<Rightarrow> Some (Inl TypeError)
                | Some connection \<Rightarrow>
                    (case calculateTimeToDownload connection
                            (js_sub (transferSize record) (bytesDownloaded auxiliaryData))
                            (timeElapsed auxiliaryData)
                            (js_sub timePeriodLength (timeElapsedOvershoot auxiliaryData)) of
                       None \<Rightarrow> None
                     | Some (calc, connection') \<Rightarrow>
                         (let connection1 =
                                setCongestionWindow (r_congestionWindow calc) connection'
                          in if (case estimatedTimeElapsed auxiliaryData of
                                   None \<Rightarrow> False
                                 | Some estimate \<Rightarrow> js_eq estimate timePeriodLength)
                             then Some (Inr (completeNode totalElapsedTime n record auxiliaryData
                                               connection1 e))
                             else Some (Inr (recordProgress timePeriodLength n record auxiliaryData
                                               calc connection1 e)))))))"

text \<open>One run of the body of the main loop, up to the test of \<open>depth\<close>. The two
  \<open>for ... of\<close> loops run over the members the sets have when the loops start: the
  bodies add nothing to the set they iterate.\<close>

definition admitQueuedNodes :: "jsnum \<Rightarrow> Estimator \<Rightarrow> Estimator" where
  "admitQueuedNodes totalElapsedTime e =
     fold (startNodeIfPossible totalElapsedTime) (nodesInQueue e) e"

definition estimate_iteration :: "Estimator \<Rightarrow> jsnum \<Rightarrow> (Estimator \<times> jsnum) result" where
  "estimate_iteration e totalElapsedTime =
     (let e1 = admitQueuedNodes totalElapsedTime e
      in bind_result (updateNetworkCapacity e1)
           (\<lambda>e2. bind_result (findNextNodeCompletionTime e2)
              (\<lambda>(minimumTime, e3).
                 (let totalElapsedTime' = js_add totalElapsedTime minimumTime
                  in bind_result
                       (for_each (updateProgressMadeInTimePeriod minimumTime totalElapsedTime')
                          (nodesInProcess e3) e3)
                       (\<lambda>e4. Some (Inr (e4, totalElapsedTime')))))))"

function estimate_loop :: "Estimator \<Rightarrow> nat \<Rightarrow> jsnum \<Rightarrow> jsnum result" where
  "estimate_loop e depth totalElapsedTime =
     (if nodesInQueue e \<noteq> [] \<or> nodesInProcess e \<noteq> []
      then (case estimate_iteration e totalElapsedTime of
              None \<Rightarrow> None
            | Some (Inl err) \<Rightarrow> Some (Inl err)
            | Some (Inr (e', totalElapsedTime')) \<Rightarrow>
                if depth + 1 > 10000 then Some (Inl MaximumDepthExceeded)
                else estimate_loop e' (depth + 1) totalElapsedTime')
      else Some (Inr totalElapsedTime))"
  by pat_completeness auto
termination
  by (relation "measure (\<lambda>(e, depth, totalElapsedTime). 10001 - depth)") auto

declare estimate_loop.simps [simp del]

text \<open>The state with which the main loop starts, and \<open>estimate()\<close>.\<close>

definition estimate_init :: "Graph \<Rightarrow> Options \<Rightarrow> Estimator result" where
  "estimate_init g options =
     bind_result (initializeNetworkConnections (initializeNetworkRecords (new_Estimator g options)))
       (\<lambda>e. (let e' = initializeAuxiliaryData e
             in Some (Inr (e'\<lparr>nodesInQueue := set_add (rootNode g) (nodesInQueue e')\<rparr>))))"

definition estimate :: "Graph \<Rightarrow> Options \<Rightarrow> jsnum result" where
  "estimate g options = bind_result (estimate_init g options) (\<lambda>e. estimate_loop e 0 (Num 0))"

section \<open>The states of a run\<close>

text \<open>
  \<open>loop_head g options e depth t\<close>: the run of \<open>estimate\<close> on \<open>g\<close> and \<open>options\<close> reaches
  the test of the main loop with the estimator \<open>e\<close>, \<open>depth\<close> runs of the body done and the
  total elapsed time \<open>t\<close>.
\<close>

inductive loop_head :: "Graph \<Rightarrow> Options \<Rightarrow> Estimator \<Rightarrow> nat \<Rightarrow> jsnum \<Rightarrow> bool"
  for g :: Graph and options :: Options where
  loop_head_init:
    "estimate_init g options = Some (Inr e) \<Longrightarrow> loop_head g options e 0 (Num 0)"
| loop_head_next:
    "loop_head g options e depth t \<Longrightarrow>
     nodesInQueue e \<noteq> [] \<or> nodesInProcess e \<noteq> [] \<Longrightarrow>
     estimate_iteration e t = Some (Inr (e', t')) \<Longrightarrow>
     \<not> depth + 1 > 10000 \<Longrightarrow>
     loop_head g options e' (depth + 1) t'"

text \<open>
  \<open>visited g options e\<close>: the run goes through the state \<open>e\<close>, at the test of the main
  loop or, inside its body, after a call of \<open>_startNodeIfPossible\<close>, after a step of
  \<open>_updateNetworkCapacity\<close>, after a call of \<open>_estimateTimeRemaining\<close> or after a call of
  \<open>_updateProgressMadeInTimePeriod\<close> (the first \<open>k\<close> elements of each loop done).
\<close>

inductive visited :: "Graph \<Rightarrow> Options \<Rightarrow> Estimator \<Rightarrow> bool"
  for g :: Graph and options :: Options where
  visited_head:
    "loop_head g options e depth t \<Longrightarrow> visited g options e"
| visited_admit:
    "loop_head g options e depth t \<Longrightarrow>
     nodesInQueue e \<noteq> [] \<or> nodesInProcess e \<noteq> [] \<Longrightarrow>
     visited g options (fold (startNodeIfPossible t) (take k (nodesInQueue e)) e)"
| visited_capacity:
    "loop_head g options e depth t \<Longrightarrow>
     nodesInQueue e \<noteq> [] \<or> nodesInProcess e \<noteq> [] \<Longrightarrow>
     for_each setConnectionThroughput (take k (connectionsInUse (admitQueuedNodes t e)))
       (admitQueuedNodes t e) = Some (Inr e') \<Longrightarrow>
     visited g options e'"
| visited_estimate:
    "loop_head g options e depth t \<Longrightarrow>
     nodesInQueue e \<noteq> [] \<or> nodesInProcess e \<noteq> [] \<Longrightarrow>
     updateNetworkCapacity (admitQueuedNodes t e) = Some (Inr e2) \<Longrightarrow>
     for_each nextCompletionStep (take k (nodesInProcess e2)) (PosInf, e2) = Some (Inr (m, e')) \<Longrightarrow>
     visited g options e'"
| visited_update:
    "loop_head g options e depth t \<Longrightarrow>
     nodesInQueue e \<noteq> [] \<or> nodesInProcess e \<noteq> [] \<Longrightarrow>
     updateNetworkCapacity (admitQueuedNodes t e) = Some (Inr e2) \<Longrightarrow>
     findNextNodeCompletionTime e2 = Some (Inr (m, e3)) \<Longrightarrow>
     for_each (updateProgressMadeInTimePeriod m (js_add t m)) (take k (nodesInProcess e3)) e3
       = Some (Inr e') \<Longrightarrow>
     visited g options e'"

section \<open>Notions used to state the properties\<close>


text \<open>Whether a node is a \<open>NETWORK\<close> node, the connection id of its record, and the
  connection object the estimator uses for it.\<close>

definition is_network :: "Graph \<Rightarrow> node_id \<Rightarrow> bool" where
  "is_network g n = (case kind (node g n) of NETWORK record \<Rightarrow> True | CPU \<Rightarrow> False)"


definition nodeConnectionRef :: "Estimator \<Rightarrow> node_id \<Rightarrow> connection_id option" where
  "nodeConnectionRef e n =
     (case kind (node (graph e) n) of
        NETWORK record \<Rightarrow> connectionRef e (connectionId record)
      | CPU \<Rightarrow> None)"

text \<open>The nodes in process are \<open>NETWORK\<close> nodes, and the connections in use are their
  connections, one each.\<close>

definition in_flight_consistent :: "Estimator \<Rightarrow> bool" where
  "in_flight_consistent e =
     (list_all (is_network (graph e)) (nodesInProcess e)
      \<and> connectionsInUse e = map (nodeConnectionRef e) (nodesInProcess e)
      \<and> distinct (connectionsInUse e))"

text \<open>Two states of one run: the graph, the configuration and the connection ids that
  have a connection are the same.\<close>

definition same_setup :: "Estimator \<Rightarrow> Estimator \<Rightarrow> bool" where
  "same_setup e e' =
     (graph e' = graph e \<and> e_rtt e' = e_rtt e \<and> e_throughput e' = e_throughput e
      \<and> e_defaultResponseTime e' = e_defaultResponseTime e
      \<and> e_maximumConcurrentRequests e' = e_maximumConcurrentRequests e
      \<and> (\<forall>cid. (connections e' cid = None) = (connections e cid = None)))"

text \<open>The invariant of a run on the nodes in process: they are consistent with the
  connections in use, and when the cap on concurrent requests is a whole number, there
  are at most that many.\<close>

definition run_inv :: "Estimator \<Rightarrow> bool" where
  "run_inv e =
     (in_flight_consistent e
      \<and> (\<forall>cap. e_maximumConcurrentRequests e = Num (real cap) \<longrightarrow>
             length (nodesInProcess e) \<le> cap))"


text \<open>What stays the same at every test of the main loop, and in every state of a run.\<close>

definition run_config :: "Graph \<Rightarrow> Options \<Rightarrow> Estimator \<Rightarrow> bool" where
  "run_config g options e =
     (graph e = g
      \<and> e_maximumConcurrentRequests e = e_maximumConcurrentRequests (new_Estimator g options)
      \<and> e_rtt e = e_rtt (new_Estimator g options)
      \<and> e_throughput e = e_throughput (new_Estimator g options)
      \<and> e_defaultResponseTime e = e_defaultResponseTime (new_Estimator g options))"









text \<open>
  The growth loop in the words of the specification, on \<open>(elapsed, window, credited,
  remaining)\<close>: one round advances the elapsed time by one round trip, sets the window to
  \<open>max(min(maxCwnd, window * 2), 1)\<close> and credits \<open>window * 1460\<close> bytes; it goes on
  while bytes remain and the elapsed time is at most the deadline.
\<close>

definition spec_growth_round :: "jsnum \<Rightarrow> jsnum \<Rightarrow> jsnum \<times> jsnum \<times> jsnum \<times> jsnum \<Rightarrow>
    jsnum \<times> jsnum \<times> jsnum \<times> jsnum" where
  "spec_growth_round roundTrip maxCwnd s =
     (case s of (elapsed, window, credited, remaining) \<Rightarrow>
        (js_add elapsed roundTrip,
         js_max (js_min maxCwnd (js_mul window (Num 2))) (Num 1),
         js_add credited (js_mul (js_max (js_min maxCwnd (js_mul window (Num 2))) (Num 1)) (Num 1460)),
         js_sub remaining (js_mul (js_max (js_min maxCwnd (js_mul window (Num 2))) (Num 1)) (Num 1460))))"


section \<open>Example inputs\<close>

text \<open>No option given; a record on connection \<open>1\<close> with no timing; and the graph of one
  \<open>NETWORK\<close> node.\<close>

definition example_no_options :: Options where
  "example_no_options =
     \<lparr> o_rtt = None, o_throughput = None, o_defaultResponseTime = None,
       o_maximumConcurrentRequests = None \<rparr>"



text \<open>A graph whose root is a \<open>CPU\<close> node.\<close>

definition example_cpu_root :: Graph where
  "example_cpu_root =
     \<lparr> rootNode = 0,
       node = (\<lambda>n. \<lparr> kind = CPU, dependencies = [], dependents = [] \<rparr>),
       traversal = [0] \<rparr>"

text \<open>A graph of one \<open>NETWORK\<close> node whose record has the timing \<open>sendEnd = 5\<close>,
  \<open>receiveHeadersEnd = 5\<close>: a measured response time of \<open>0\<close>.\<close>

definition example_zero_response :: Graph where
  "example_zero_response =
     \<lparr> rootNode = 0,
       node = (\<lambda>n. \<lparr> kind = NETWORK \<lparr> connectionId = 1, transferSize = Num 1000,
                  scheme = ''https'',
                  timing = Some \<lparr> sendEnd = Num 5, receiveHeadersEnd = Num 5 \<rparr> \<rparr>,
                dependencies = [], dependents = [] \<rparr>),
       traversal = [0] \<rparr>"






section \<open>Properties of the download loop\<close>

text \<open>A result of the loop is reached by running the body some number of times; the
  condition holds before each of these runs and fails at the end.\<close>

lemma download_loop_iterates:
  assumes "download_loop t m d s = Some y"
  shows "\<exists>n. y = (loop_body t m ^^ n) s \<and> \<not> loop_cond d y \<and>
             (\<forall>k<n. loop_cond d ((loop_body t m ^^ k) s))"
proof (rule download_loop.raw_induct[where P = "\<lambda>t m d s y. \<exists>n. y = (loop_body t m ^^ n) s \<and>
     \<not> loop_cond d y \<and> (\<forall>k<n. loop_cond d ((loop_body t m ^^ k) s))", OF _ assms], goal_cases)
  case (1 f t m d s y)
  show ?case
  proof (cases "loop_cond d s")
    case False
    with 1(2) have "y = s" by simp
    with False have "y = (loop_body t m ^^ 0) s \<and> \<not> loop_cond d y \<and>
             (\<forall>k<0. loop_cond d ((loop_body t m ^^ k) s))" by simp
    then show ?thesis by blast
  next
    case True
    with 1(2) have "f t m d (loop_body t m s) = Some y" by simp
    from 1(1)[OF this] obtain n where n: "y = (loop_body t m ^^ n) (loop_body t m s)"
      "\<not> loop_cond d y" "\<forall>k<n. loop_cond d ((loop_body t m ^^ k) (loop_body t m s))" by blast
    have a: "y = (loop_body t m ^^ Suc n) s" using n(1) by (simp add: funpow_swap1)
    have b: "\<forall>k<Suc n. loop_cond d ((loop_body t m ^^ k) s)"
    proof (intro allI impI)
      fix k assume k: "k < Suc n"
      show "loop_cond d ((loop_body t m ^^ k) s)"
      proof (cases k)
        case 0 with True show ?thesis by simp
      next
        case (Suc j)
        with k have "j < n" by simp
        with n(3) have "loop_cond d ((loop_body t m ^^ j) (loop_body t m s))" by blast
        with Suc show ?thesis by (simp add: funpow_swap1)
      qed
    qed
    from a n(2) b show ?thesis by blast
  qed
qed

text \<open>Conversely, the loop returns what the iteration reaches when the condition
  fails for the first time.\<close>

lemma download_loop_funpow:
  "\<forall>k<n. loop_cond d ((loop_body t m ^^ k) s) \<Longrightarrow> \<not> loop_cond d ((loop_body t m ^^ n) s) \<Longrightarrow>
   download_loop t m d s = Some ((loop_body t m ^^ n) s)"
proof (induction n arbitrary: s)
  case 0
  then show ?case by (subst download_loop.simps) simp
next
  case (Suc n)
  from Suc.prems(1) have c0: "loop_cond d s" by (metis funpow_0 zero_less_Suc)
  have "\<forall>k<n. loop_cond d ((loop_body t m ^^ k) (loop_body t m s))"
  proof (intro allI impI)
    fix k assume "k < n"
    then have "Suc k < Suc n" by simp
    with Suc.prems(1) have "loop_cond d ((loop_body t m ^^ Suc k) s)" by blast
    then show "loop_cond d ((loop_body t m ^^ k) (loop_body t m s))" by (simp add: funpow_swap1)
  qed
  moreover have "\<not> loop_cond d ((loop_body t m ^^ n) (loop_body t m s))"
    using Suc.prems(2) by (simp add: funpow_swap1)
  ultimately have "download_loop t m d (loop_body t m s) = Some ((loop_body t m ^^ n) (loop_body t m s))"
    by (rule Suc.IH)
  with c0 show ?case by (subst download_loop.simps) (simp add: funpow_swap1)
qed





text \<open>The body and the condition of the loop are the round and the condition of the
  specification; the round trips are counted beside them.\<close>

lemma loop_body_spec:
  "loop_body t m (rt, s) = (js_add rt (Num 1), spec_growth_round t m s)"
  by (cases s) (simp add: loop_body_def spec_growth_round_def Let_def TCP_SEGMENT_SIZE_def)

lemma loop_body_funpow:
  "(loop_body t m ^^ n) (rt, s) =
     (((\<lambda>k. js_add k (Num 1)) ^^ n) rt, (spec_growth_round t m ^^ n) s)"
  by (induction n) (simp_all add: loop_body_spec)


lemma spec_growth_round_fst: "fst (spec_growth_round t m s) = js_add (fst s) t"
  by (cases s) (simp add: spec_growth_round_def)

lemma spec_growth_elapsed:
  "fst ((spec_growth_round t m ^^ n) s) = ((\<lambda>d. js_add d t) ^^ n) (fst s)"
  by (induction n) (simp_all add: spec_growth_round_fst)

section \<open>Properties of \<open>calculateTimeToDownload\<close>\<close>

text \<open>What a returned calculation is made of.\<close>

lemma calculateTimeToDownload_Some:
  assumes "calculateTimeToDownload c b tae mx = Some (r, c')"
  shows "c' = c \<and> (\<exists>n rts dl cw bd br.
     (loop_body (rtt c) (computeMaximumCongestionWindowInSegments c) ^^ n)
        (initial_loop_vars c b tae) = (rts, dl, cw, bd, br)
     \<and> \<not> loop_cond (js_sub mx (timeElapsedForTTFB c tae)) (rts, dl, cw, bd, br)
     \<and> (\<forall>k<n. loop_cond (js_sub mx (timeElapsedForTTFB c tae))
           ((loop_body (rtt c) (computeMaximumCongestionWindowInSegments c) ^^ k)
              (initial_loop_vars c b tae)))
     \<and> r = \<lparr> r_roundTrips = rts, r_timeElapsed = js_add (timeElapsedForTTFB c tae) dl,
             r_bytesDownloaded = js_min bd b, r_congestionWindow = cw \<rparr>)"
proof -
  from assms obtain y where y: "download_loop (rtt c) (computeMaximumCongestionWindowInSegments c)
       (js_sub mx (timeElapsedForTTFB c tae)) (initial_loop_vars c b tae) = Some y"
    by (auto simp: calculateTimeToDownload_def Let_def split: option.splits)
  obtain rts dl cw bd br where yy: "y = (rts, dl, cw, bd, br)" by (cases y) auto
  from assms y yy have r: "c' = c" "r = \<lparr> r_roundTrips = rts, r_timeElapsed = js_add (timeElapsedForTTFB c tae) dl,
             r_bytesDownloaded = js_min bd b, r_congestionWindow = cw \<rparr>"
    by (auto simp: calculateTimeToDownload_def Let_def)
  from download_loop_iterates[OF y] obtain n where
    n: "y = (loop_body (rtt c) (computeMaximumCongestionWindowInSegments c) ^^ n) (initial_loop_vars c b tae)"
       "\<not> loop_cond (js_sub mx (timeElapsedForTTFB c tae)) y"
       "\<forall>k<n. loop_cond (js_sub mx (timeElapsedForTTFB c tae))
           ((loop_body (rtt c) (computeMaximumCongestionWindowInSegments c) ^^ k) (initial_loop_vars c b tae))"
    by blast
  show ?thesis using r n yy by metis
qed

lemma calculateTimeToDownload_same_connection:
  "calculateTimeToDownload c b tae mx = Some (r, c') \<Longrightarrow> c' = c"
  by (auto simp: calculateTimeToDownload_def Let_def split: option.splits)

lemma handshake_three_halves:
  "js_add (js_add (js_div a (Num 2)) (js_div a (Num 2))) (js_div a (Num 2)) = js_mul (Num (3/2)) a"
  by (cases a) auto

lemma handshakeAndRequest_eq:
  "handshakeAndRequest c =
     (if warmed c then js_div (rtt c) (Num 2)
      else js_add (js_mul (Num (3/2)) (rtt c)) (if ssl c then rtt c else Num 0))"
  by (simp add: handshakeAndRequest_def Let_def handshake_three_halves)

lemma initial_loop_vars_elapsed: "fst (snd (initial_loop_vars c b tae)) = Num 0"
  by (simp add: initial_loop_vars_def Let_def)

text \<open>
  Claim C1. The cost of the handshake and of the request is \<open>1.5 * rtt + (ssl ? rtt : 0)\<close>
  on a connection that is not warmed and \<open>rtt / 2\<close> on a warmed one; the time to the
  first byte is this cost plus the response time plus \<open>rtt / 2\<close>; and the time a call
  returns is \<open>max(TTFB - timeAlreadyElapsed, 0)\<close> plus the round trips of the download
  loop, \<open>rtt\<close> added \<open>n\<close> times to \<open>0\<close>.
\<close>

theorem C1_time_to_first_byte:
  assumes "calculateTimeToDownload c bytesToDownload timeAlreadyElapsed maximumTimeToElapse = Some (r, c')"
  shows "handshakeAndRequest c =
           (if warmed c then js_div (rtt c) (Num 2)
            else js_add (js_mul (Num (3/2)) (rtt c)) (if ssl c then rtt c else Num 0))
       \<and> timeToFirstByte c =
           js_add (js_add (handshakeAndRequest c) (responseTime c)) (js_div (rtt c) (Num 2))
       \<and> (\<exists>n. r_timeElapsed r =
             js_add (js_max (js_sub (timeToFirstByte c) timeAlreadyElapsed) (Num 0))
               (((\<lambda>elapsed. js_add elapsed (rtt c)) ^^ n) (Num 0)))"
proof -
  from calculateTimeToDownload_Some[OF assms] obtain n rts dl cw bd br where
    it: "(loop_body (rtt c) (computeMaximumCongestionWindowInSegments c) ^^ n)
        (initial_loop_vars c bytesToDownload timeAlreadyElapsed) = (rts, dl, cw, bd, br)"
    and r: "r = \<lparr> r_roundTrips = rts,
             r_timeElapsed = js_add (timeElapsedForTTFB c timeAlreadyElapsed) dl,
             r_bytesDownloaded = js_min bd bytesToDownload, r_congestionWindow = cw \<rparr>"
    by blast
  obtain rt0 s0 where i: "initial_loop_vars c bytesToDownload timeAlreadyElapsed = (rt0, s0)"
    by (cases "initial_loop_vars c bytesToDownload timeAlreadyElapsed") auto
  have s0: "fst s0 = Num 0" using initial_loop_vars_elapsed[of c bytesToDownload timeAlreadyElapsed] i
    by simp
  from it i have "(spec_growth_round (rtt c) (computeMaximumCongestionWindowInSegments c) ^^ n) s0
      = (dl, cw, bd, br)" by (simp add: loop_body_funpow)
  then have "dl = fst ((spec_growth_round (rtt c) (computeMaximumCongestionWindowInSegments c) ^^ n) s0)"
    by simp
  then have dl: "dl = ((\<lambda>elapsed. js_add elapsed (rtt c)) ^^ n) (Num 0)"
    by (simp add: spec_growth_elapsed s0)
  have "r_timeElapsed r = js_add (js_max (js_sub (timeToFirstByte c) timeAlreadyElapsed) (Num 0))
               (((\<lambda>elapsed. js_add elapsed (rtt c)) ^^ n) (Num 0))"
    using r dl by (simp add: timeElapsedForTTFB_def)
  then show ?thesis
    using handshakeAndRequest_eq[of c] by (auto simp: timeToFirstByte_def)
qed






text \<open>
  Claim C6. The connection a call of \<open>calculateTimeToDownload\<close> leaves is the connection
  it was given, field by field; each setter assigns its one field.
\<close>

theorem C6_query_leaves_connection_unchanged:
  "(calculateTimeToDownload c b tae mx = Some (r, c') \<longrightarrow>
      warmed c' = warmed c \<and> congestionWindow c' = congestionWindow c \<and>
      availableThroughput c' = availableThroughput c \<and> rtt c' = rtt c \<and> ssl c' = ssl c \<and>
      responseTime c' = responseTime c)
   \<and> setThroughput t c = c\<lparr>availableThroughput := t\<rparr>
   \<and> setCongestionWindow w c = c\<lparr>congestionWindow := w\<rparr>
   \<and> setWarmed v c = c\<lparr>warmed := v\<rparr>"
  using calculateTimeToDownload_same_connection[of c b tae mx r c']
  by (auto simp: setThroughput_def setCongestionWindow_def setWarmed_def)

section \<open>The connection of the scenarios\<close>

text \<open>The scenario of the specification: \<open>rtt = 100\<close>, throughput \<open>1638400\<close>, SSL,
  response time \<open>0\<close>, not warmed.\<close>

lemmas calculate_defs =
  calculateTimeToDownload_def initial_loop_vars_def handshakeAndRequest_def
  timeElapsedForTTFB_def timeToFirstByte_def computeMaximumCongestionWindowInSegments_def
  new_TcpConnection_def INITIAL_CONGESTION_WINDOW_def TCP_SEGMENT_SIZE_def
  loop_cond_def loop_body_def js_sub_def js_gt_def Let_def

lemma scenario_zero_bytes:
  "calculateTimeToDownload (new_TcpConnection (Num 100) (Num 1638400) (Num 0) True)
     (Num 0) (Num 0) PosInf
   = Some (\<lparr> r_roundTrips = Num 3, r_timeElapsed = Num 300, r_bytesDownloaded = Num 0,
             r_congestionWindow = Num 10 \<rparr>,
           new_TcpConnection (Num 100) (Num 1638400) (Num 0) True)"
  by (simp add: calculate_defs download_loop.simps)

lemma scenario_100000_bytes:
  "calculateTimeToDownload (new_TcpConnection (Num 100) (Num 1638400) (Num 0) True)
     (Num 100000) (Num 0) PosInf
   = Some (\<lparr> r_roundTrips = Num 8, r_timeElapsed = Num 800, r_bytesDownloaded = Num 100000,
             r_congestionWindow = Num 14 \<rparr>,
           new_TcpConnection (Num 100) (Num 1638400) (Num 0) True)"
  by (simp add: calculate_defs download_loop.simps)

theorem C1_time_to_first_byte_witness:
  "calculateTimeToDownload (new_TcpConnection (Num 100) (Num 1638400) (Num 0) True)
     (Num 100000) (Num 0) PosInf
   = Some (\<lparr> r_roundTrips = Num 8, r_timeElapsed = Num 800, r_bytesDownloaded = Num 100000,
             r_congestionWindow = Num 14 \<rparr>,
           new_TcpConnection (Num 100) (Num 1638400) (Num 0) True)
   \<and> handshakeAndRequest (new_TcpConnection (Num 100) (Num 1638400) (Num 0) True) = Num 250
   \<and> timeToFirstByte (new_TcpConnection (Num 100) (Num 1638400) (Num 0) True) = Num 300
   \<and> (\<exists>n. r_timeElapsed \<lparr> r_roundTrips = Num 8, r_timeElapsed = Num 800,
               r_bytesDownloaded = Num 100000, r_congestionWindow = Num 14 \<rparr> =
            js_add (js_max (js_sub
                (timeToFirstByte (new_TcpConnection (Num 100) (Num 1638400) (Num 0) True))
                (Num 0)) (Num 0))
              (((\<lambda>elapsed. js_add elapsed
                   (rtt (new_TcpConnection (Num 100) (Num 1638400) (Num 0) True))) ^^ n) (Num 0)))"
proof -
  have h: "handshakeAndRequest (new_TcpConnection (Num 100) (Num 1638400) (Num 0) True) = Num 250"
    by (simp add: handshakeAndRequest_def new_TcpConnection_def)
  then have t: "timeToFirstByte (new_TcpConnection (Num 100) (Num 1638400) (Num 0) True) = Num 300"
    by (simp add: timeToFirstByte_def) (simp add: new_TcpConnection_def)
  from C1_time_to_first_byte[OF scenario_100000_bytes] scenario_100000_bytes h t
  show ?thesis by blast
qed


theorem C6_query_leaves_connection_unchanged_witness:
  "calculateTimeToDownload (new_TcpConnection (Num 100) (Num 1638400) (Num 0) True)
     (Num 100000) (Num 0) PosInf
   = Some (\<lparr> r_roundTrips = Num 8, r_timeElapsed = Num 800, r_bytesDownloaded = Num 100000,
             r_congestionWindow = Num 14 \<rparr>,
           new_TcpConnection (Num 100) (Num 1638400) (Num 0) True)
   \<and> congestionWindow (new_TcpConnection (Num 100) (Num 1638400) (Num 0) True) = Num 10
   \<and> warmed (new_TcpConnection (Num 100) (Num 1638400) (Num 0) True) = False
   \<and> availableThroughput (setThroughput (Num 5)
        (new_TcpConnection (Num 100) (Num 1638400) (Num 0) True)) = Num 5"
  using C6_query_leaves_connection_unchanged[of
      "new_TcpConnection (Num 100) (Num 1638400) (Num 0) True" "Num 100000" "Num 0" PosInf _ _
      "Num 5" "Num 5" True]
    scenario_100000_bytes
  by (simp add: new_TcpConnection_def INITIAL_CONGESTION_WINDOW_def)

text \<open>
  Claim C2, as stated: the call \<open>calculateTimeToDownload(0)\<close> on the connection of the
  scenario returns \<open>timeElapsed = 250\<close>. It does not.
\<close>

theorem C2_zero_bytes_250_counterexample:
  "\<not> (\<exists>r c'. calculateTimeToDownload (new_TcpConnection (Num 100) (Num 1638400) (Num 0) True)
                 (Num 0) (Num 0) PosInf = Some (r, c')
              \<and> r_timeElapsed r = Num 250)"
  by (auto simp: scenario_zero_bytes)

text \<open>
  Claim C2, amended: the call returns \<open>timeElapsed = 300\<close>: a handshake of
  \<open>1.5 * 100 + 100\<close>, a response time of \<open>0\<close> and \<open>50\<close> for the first byte to come
  back; it counts \<open>3\<close> round trips and downloads \<open>0\<close> bytes.
\<close>

theorem C2_zero_bytes_300:
  "calculateTimeToDownload (new_TcpConnection (Num 100) (Num 1638400) (Num 0) True)
     (Num 0) (Num 0) PosInf
   = Some (\<lparr> r_roundTrips = Num 3, r_timeElapsed = Num 300, r_bytesDownloaded = Num 0,
             r_congestionWindow = Num 10 \<rparr>,
           new_TcpConnection (Num 100) (Num 1638400) (Num 0) True)"
  by (rule scenario_zero_bytes)

section \<open>Loops over lists\<close>

text \<open>An invariant \<open>Q rest s\<close> of a \<open>for ... of\<close> loop, on the elements still to come and
  the state: it holds after any number of steps, and a step that throws or does not
  return starts from a state in which it holds.\<close>

lemma for_each_invariant:
  assumes "for_each f ys s = Some (Inr s')" and "Q (ys @ zs) s"
    and "\<And>x rest s s'. Q (x # rest) s \<Longrightarrow> f x s = Some (Inr s') \<Longrightarrow> Q rest s'"
  shows "Q zs s'"
  using assms(1,2)
proof (induction ys arbitrary: s)
  case Nil
  then show ?case by simp
next
  case (Cons x ys)
  from Cons.prems(1) obtain s1 where s1: "f x s = Some (Inr s1)" "for_each f ys s1 = Some (Inr s')"
    by (auto simp: bind_result_def split: option.splits sum.splits)
  have "Q (ys @ zs) s1" using assms(3)[of x "ys @ zs" s s1] Cons.prems(2) s1(1) by simp
  then show ?case using Cons.IH[OF s1(2)] by blast
qed

lemma for_each_fails:
  assumes "for_each f ys s = r" and "r = None \<or> r = Some (Inl err)" and "Q (ys @ zs) s"
    and "\<And>x rest s s'. Q (x # rest) s \<Longrightarrow> f x s = Some (Inr s') \<Longrightarrow> Q rest s'"
  shows "\<exists>x rest s0. Q (x # rest) s0 \<and> f x s0 = r"
  using assms(1,3)
proof (induction ys arbitrary: s)
  case Nil
  then show ?case using assms(2) by auto
next
  case (Cons x ys)
  show ?case
  proof (cases "f x s")
    case None
    with Cons.prems have "Q (x # (ys @ zs)) s \<and> f x s = r" by (simp add: bind_result_def)
    then show ?thesis by blast
  next
    case (Some a)
    show ?thesis
    proof (cases a)
      case (Inl e)
      with Some Cons.prems have "Q (x # (ys @ zs)) s \<and> f x s = r" by (simp add: bind_result_def)
      then show ?thesis by blast
    next
      case (Inr s1)
      with Some Cons.prems(1) have 1: "for_each f ys s1 = r" by (simp add: bind_result_def)
      have "Q (ys @ zs) s1" using assms(4)[of x "ys @ zs" s s1] Cons.prems(2) Some Inr by simp
      from Cons.IH[OF 1 this] show ?thesis .
    qed
  qed
qed

lemma fold_invariant:
  assumes "Q (ys @ zs) s" and "\<And>x rest s. Q (x # rest) s \<Longrightarrow> Q rest (f x s)"
  shows "Q zs (fold f ys s)"
  using assms(1)
proof (induction ys arbitrary: s)
  case Nil
  then show ?case by simp
next
  case (Cons x ys)
  have "Q (ys @ zs) (f x s)" using assms(2)[of x "ys @ zs" s] Cons.prems by simp
  then show ?case using Cons.IH by simp
qed

section \<open>What each operation of the estimator changes\<close>

lemma enqueueNodeIfPossible_effect:
  "\<exists>q. enqueueNodeIfPossible n e = e\<lparr>nodesInQueue := q\<rparr> \<and>
       set (nodesInQueue e) \<subseteq> set q \<and> set q \<subseteq> insert n (set (nodesInQueue e))"
proof (cases "enqueueNodeIfPossible n e = e")
  case True
  then show ?thesis by (intro exI[of _ "nodesInQueue e"]) auto
next
  case False
  then have "enqueueNodeIfPossible n e = e\<lparr>nodesInQueue := set_add n (nodesInQueue e)\<rparr>"
    by (auto simp: enqueueNodeIfPossible_def Let_def split: if_splits)
  moreover have "set (set_add n (nodesInQueue e)) = insert n (set (nodesInQueue e))"
    by (auto simp: set_add_def)
  ultimately show ?thesis by blast
qed

lemma fold_enqueueNodeIfPossible_effect:
  "\<exists>q. fold enqueueNodeIfPossible ds e = e\<lparr>nodesInQueue := q\<rparr> \<and>
       set (nodesInQueue e) \<subseteq> set q \<and> set q \<subseteq> set ds \<union> set (nodesInQueue e)"
proof (induction ds arbitrary: e)
  case Nil
  show ?case by (intro exI[of _ "nodesInQueue e"]) simp
next
  case (Cons d ds)
  from enqueueNodeIfPossible_effect[of d e] obtain q where
    q: "enqueueNodeIfPossible d e = e\<lparr>nodesInQueue := q\<rparr>"
       "set (nodesInQueue e) \<subseteq> set q" "set q \<subseteq> insert d (set (nodesInQueue e))" by blast
  from Cons.IH[of "e\<lparr>nodesInQueue := q\<rparr>"] obtain q' where
    q': "fold enqueueNodeIfPossible ds (e\<lparr>nodesInQueue := q\<rparr>) = e\<lparr>nodesInQueue := q'\<rparr>"
        "set q \<subseteq> set q'" "set q' \<subseteq> set ds \<union> set q" by auto
  have "fold enqueueNodeIfPossible (d # ds) e = e\<lparr>nodesInQueue := q'\<rparr>" using q(1) q'(1) by simp
  moreover have "set (nodesInQueue e) \<subseteq> set q'" using q(2) q'(2) by blast
  moreover have "set q' \<subseteq> set (d # ds) \<union> set (nodesInQueue e)" using q(3) q'(3) by auto
  ultimately show ?case by blast
qed

lemma startNodeIfPossible_cases:
  "startNodeIfPossible t n e = e \<or>
   (\<exists>r. kind (node (graph e) n) = NETWORK r
      \<and> \<not> js_ge (Num (real (length (nodesInProcess e)))) (e_maximumConcurrentRequests e)
      \<and> connectionRef e (connectionId r) \<notin> set (connectionsInUse e)
      \<and> startNodeIfPossible t n e =
         e\<lparr>nodesInQueue := set_delete n (nodesInQueue e),
           nodesInProcess := set_add n (nodesInProcess e),
           nodeAuxiliaryData := (nodeAuxiliaryData e)(n \<mapsto>
              \<lparr> startTime = t, timeElapsed = Num 0, timeElapsedOvershoot = Num 0,
                bytesDownloaded = Num 0, estimatedTimeElapsed = None, endTime = None \<rparr>),
           connectionsInUse := set_add (connectionRef e (connectionId r)) (connectionsInUse e)\<rparr>)"
  by (cases "kind (node (graph e) n)") (simp_all add: startNodeIfPossible_def Let_def)

lemma setConnectionThroughput_effect:
  assumes "setConnectionThroughput connection e = Some (Inr e')"
  obtains cid c where "connection = Some cid" "connections e cid = Some c"
    "e' = e\<lparr>connections := (connections e)(cid \<mapsto>
       setThroughput (js_div (e_throughput e) (Num (real (length (nodesInProcess e))))) c)\<rparr>"
  using assms by (auto simp: setConnectionThroughput_def split: option.splits)

lemma estimateTimeRemaining_effect:
  assumes "estimateTimeRemaining n e = Some (Inr (est, e'))"
  obtains r aux conn calc where "kind (node (graph e) n) = NETWORK r"
    "nodeAuxiliaryData e n = Some aux" "connections e (connectionId r) = Some conn"
    "calculateTimeToDownload conn (js_sub (transferSize r) (bytesDownloaded aux))
        (timeElapsed aux) PosInf = Some (calc, conn)"
    "est = js_add (r_timeElapsed calc) (timeElapsedOvershoot aux)"
    "e' = e\<lparr>nodeAuxiliaryData := (nodeAuxiliaryData e)(n \<mapsto>
            aux\<lparr>estimatedTimeElapsed := Some est\<rparr>)\<rparr>"
proof -
  from assms obtain r where r: "kind (node (graph e) n) = NETWORK r"
    by (cases "kind (node (graph e) n)") (auto simp: estimateTimeRemaining_def)
  from assms r obtain aux where aux: "nodeAuxiliaryData e n = Some aux"
    by (cases "nodeAuxiliaryData e n") (auto simp: estimateTimeRemaining_def)
  from assms r aux obtain conn where conn: "connections e (connectionId r) = Some conn"
    by (cases "connections e (connectionId r)") (auto simp: estimateTimeRemaining_def)
  from assms r aux conn obtain calc conn' where
    calc: "calculateTimeToDownload conn (js_sub (transferSize r) (bytesDownloaded aux))
        (timeElapsed aux) PosInf = Some (calc, conn')"
    by (cases "calculateTimeToDownload conn (js_sub (transferSize r) (bytesDownloaded aux))
        (timeElapsed aux) PosInf") (auto simp: estimateTimeRemaining_def)
  have same: "conn' = conn" using calc by (rule calculateTimeToDownload_same_connection)
  have upd: "(connections e)(connectionId r \<mapsto> conn) = connections e"
    using conn by (rule map_upd_triv)
  have est: "est = js_add (r_timeElapsed calc) (timeElapsedOvershoot aux)"
    using assms r aux conn calc by (auto simp: estimateTimeRemaining_def Let_def)
  have "e' = e\<lparr>nodeAuxiliaryData := (nodeAuxiliaryData e)(n \<mapsto>
            aux\<lparr>estimatedTimeElapsed := Some est\<rparr>)\<rparr>"
    using assms r aux conn calc same upd unfolding est
    by (auto simp: estimateTimeRemaining_def Let_def)
  with est r aux conn calc same that show ?thesis by blast
qed

lemma updateProgressMadeInTimePeriod_effect:
  assumes "updateProgressMadeInTimePeriod m tt n e = Some (Inr e')"
  obtains r aux conn calc where "kind (node (graph e) n) = NETWORK r"
    "nodeAuxiliaryData e n = Some aux" "connections e (connectionId r) = Some conn"
    "calculateTimeToDownload conn (js_sub (transferSize r) (bytesDownloaded aux))
        (timeElapsed aux) (js_sub m (timeElapsedOvershoot aux)) = Some (calc, conn)"
    "(\<exists>est. estimatedTimeElapsed aux = Some est \<and> js_eq est m \<and>
        e' = completeNode tt n r aux (setCongestionWindow (r_congestionWindow calc) conn) e)
     \<or> (\<not> (\<exists>est. estimatedTimeElapsed aux = Some est \<and> js_eq est m) \<and>
        e' = recordProgress m n r aux calc (setCongestionWindow (r_congestionWindow calc) conn) e)"
proof -
  from assms obtain r where r: "kind (node (graph e) n) = NETWORK r"
    by (cases "kind (node (graph e) n)") (auto simp: updateProgressMadeInTimePeriod_def)
  from assms r obtain aux where aux: "nodeAuxiliaryData e n = Some aux"
    by (cases "nodeAuxiliaryData e n") (auto simp: updateProgressMadeInTimePeriod_def)
  from assms r aux obtain conn where conn: "connections e (connectionId r) = Some conn"
    by (cases "connections e (connectionId r)") (auto simp: updateProgressMadeInTimePeriod_def)
  from assms r aux conn obtain calc conn' where
    calc: "calculateTimeToDownload conn (js_sub (transferSize r) (bytesDownloaded aux))
        (timeElapsed aux) (js_sub m (timeElapsedOvershoot aux)) = Some (calc, conn')"
    by (cases "calculateTimeToDownload conn (js_sub (transferSize r) (bytesDownloaded aux))
        (timeElapsed aux) (js_sub m (timeElapsedOvershoot aux))")
       (auto simp: updateProgressMadeInTimePeriod_def)
  have same: "conn' = conn" using calc by (rule calculateTimeToDownload_same_connection)
  have "(\<exists>est. estimatedTimeElapsed aux = Some est \<and> js_eq est m \<and>
        e' = completeNode tt n r aux (setCongestionWindow (r_congestionWindow calc) conn) e)
     \<or> (\<not> (\<exists>est. estimatedTimeElapsed aux = Some est \<and> js_eq est m) \<and>
        e' = recordProgress m n r aux calc (setCongestionWindow (r_congestionWindow calc) conn) e)"
    using assms r aux conn calc same
    by (cases "estimatedTimeElapsed aux")
       (auto simp: updateProgressMadeInTimePeriod_def Let_def split: if_splits)
  with r aux conn calc same that show ?thesis by blast
qed

section \<open>The nodes in process and the connections in use\<close>

lemma same_setup_refl: "same_setup e e"
  by (simp add: same_setup_def)

lemma same_setup_trans: "same_setup e e' \<Longrightarrow> same_setup e' e'' \<Longrightarrow> same_setup e e''"
  by (simp add: same_setup_def)

lemma connectionRef_same:
  assumes "same_setup e e'"
  shows "connectionRef e' c = connectionRef e c"
proof -
  from assms have "(connections e' c = None) = (connections e c = None)"
    unfolding same_setup_def by blast
  then show ?thesis
    by (cases "connections e' c"; cases "connections e c") (simp_all add: connectionRef_def)
qed

lemma nodeConnectionRef_same:
  assumes "same_setup e e'"
  shows "nodeConnectionRef e' n = nodeConnectionRef e n"
proof -
  from assms have "graph e' = graph e" unfolding same_setup_def by blast
  then show ?thesis
    by (cases "kind (node (graph e) n)")
       (simp_all add: nodeConnectionRef_def connectionRef_same[OF assms])
qed

lemma in_flight_consistentD:
  assumes "in_flight_consistent e"
  shows "list_all (is_network (graph e)) (nodesInProcess e)"
    and "connectionsInUse e = map (nodeConnectionRef e) (nodesInProcess e)"
    and "distinct (connectionsInUse e)"
  using assms unfolding in_flight_consistent_def by blast+

lemma in_flight_consistentI:
  assumes "list_all (is_network (graph e)) (nodesInProcess e)"
    and "connectionsInUse e = map (nodeConnectionRef e) (nodesInProcess e)"
    and "distinct (connectionsInUse e)"
  shows "in_flight_consistent e"
  using assms unfolding in_flight_consistent_def by blast

lemma set_add_new: "x \<notin> set xs \<Longrightarrow> set_add x xs = xs @ [x]"
  by (simp add: set_add_def)

lemma map_removeAll_distinct:
  "distinct (map f xs) \<Longrightarrow> x \<in> set xs \<Longrightarrow> map f (removeAll x xs) = removeAll (f x) (map f xs)"
proof (induction xs)
  case Nil
  then show ?case by simp
next
  case (Cons y ys)
  show ?case
  proof (cases "y = x")
    case True
    with Cons.prems(1) have "f x \<notin> set (map f ys)" "x \<notin> set ys" by auto
    then show ?thesis using True by simp
  next
    case False
    with Cons.prems(2) have xin: "x \<in> set ys" by simp
    with Cons.prems(1) have "f y \<noteq> f x" by force
    then show ?thesis using False Cons.IH xin Cons.prems(1) by simp
  qed
qed

lemma in_flight_consistent_same_sets:
  assumes "in_flight_consistent e" "same_setup e e'"
    "nodesInProcess e' = nodesInProcess e" "connectionsInUse e' = connectionsInUse e"
  shows "in_flight_consistent e'"
proof (rule in_flight_consistentI)
  have g: "graph e' = graph e" using assms(2) unfolding same_setup_def by blast
  show "list_all (is_network (graph e')) (nodesInProcess e')"
    using in_flight_consistentD(1)[OF assms(1)] g assms(3) by simp
  have "map (nodeConnectionRef e') (nodesInProcess e) = map (nodeConnectionRef e) (nodesInProcess e)"
    using nodeConnectionRef_same[OF assms(2)] by simp
  then show "connectionsInUse e' = map (nodeConnectionRef e') (nodesInProcess e')"
    using in_flight_consistentD(2)[OF assms(1)] assms(3,4) by simp
  show "distinct (connectionsInUse e')"
    using in_flight_consistentD(3)[OF assms(1)] assms(4) by simp
qed

lemma startNodeIfPossible_same_setup: "same_setup e (startNodeIfPossible t n e)"
  using startNodeIfPossible_cases[of t n e] by (auto simp: same_setup_def)

lemma startNodeIfPossible_in_flight:
  assumes "in_flight_consistent e"
  shows "in_flight_consistent (startNodeIfPossible t n e)"
proof -
  from startNodeIfPossible_cases[of t n e] show ?thesis
  proof (elim disjE exE conjE)
    assume "startNodeIfPossible t n e = e"
    with assms show ?thesis by simp
  next
    fix r
    assume r: "kind (node (graph e) n) = NETWORK r"
      and free: "connectionRef e (connectionId r) \<notin> set (connectionsInUse e)"
      and eq: "startNodeIfPossible t n e =
         e\<lparr>nodesInQueue := set_delete n (nodesInQueue e),
           nodesInProcess := set_add n (nodesInProcess e),
           nodeAuxiliaryData := (nodeAuxiliaryData e)(n \<mapsto>
              \<lparr> startTime = t, timeElapsed = Num 0, timeElapsedOvershoot = Num 0,
                bytesDownloaded = Num 0, estimatedTimeElapsed = None, endTime = None \<rparr>),
           connectionsInUse := set_add (connectionRef e (connectionId r)) (connectionsInUse e)\<rparr>"
    let ?e' = "startNodeIfPossible t n e"
    have ref: "nodeConnectionRef e n = connectionRef e (connectionId r)"
      using r by (simp add: nodeConnectionRef_def)
    note use = in_flight_consistentD(2)[OF assms]
    have "n \<notin> set (nodesInProcess e)"
    proof
      assume "n \<in> set (nodesInProcess e)"
      then have "nodeConnectionRef e n \<in> set (connectionsInUse e)" unfolding use by simp
      with free ref show False by simp
    qed
    then have p: "nodesInProcess ?e' = nodesInProcess e @ [n]"
      unfolding eq by (simp add: set_add_new)
    have u: "connectionsInUse ?e' = connectionsInUse e @ [connectionRef e (connectionId r)]"
      unfolding eq using free by (simp add: set_add_new)
    have g: "graph ?e' = graph e" unfolding eq by simp
    have same: "\<And>x. nodeConnectionRef ?e' x = nodeConnectionRef e x"
      using nodeConnectionRef_same[OF startNodeIfPossible_same_setup[of e t n]] by simp
    have "is_network (graph e) n" using r by (simp add: is_network_def)
    then have 1: "list_all (is_network (graph ?e')) (nodesInProcess ?e')"
      using in_flight_consistentD(1)[OF assms] p g by simp
    have 2: "connectionsInUse ?e' = map (nodeConnectionRef ?e') (nodesInProcess ?e')"
      unfolding p u using use ref same by simp
    have 3: "distinct (connectionsInUse ?e')"
      unfolding u using in_flight_consistentD(3)[OF assms] free by simp
    from 1 2 3 show ?thesis by (rule in_flight_consistentI)
  qed
qed

lemma startNodeIfPossible_count:
  assumes "e_maximumConcurrentRequests e = Num (real cap)" "length (nodesInProcess e) \<le> cap"
  shows "length (nodesInProcess (startNodeIfPossible t n e)) \<le> cap"
proof -
  from startNodeIfPossible_cases[of t n e] show ?thesis
  proof (elim disjE exE conjE)
    assume "startNodeIfPossible t n e = e"
    with assms show ?thesis by simp
  next
    fix r
    assume room: "\<not> js_ge (Num (real (length (nodesInProcess e)))) (e_maximumConcurrentRequests e)"
      and eq: "startNodeIfPossible t n e =
         e\<lparr>nodesInQueue := set_delete n (nodesInQueue e),
           nodesInProcess := set_add n (nodesInProcess e),
           nodeAuxiliaryData := (nodeAuxiliaryData e)(n \<mapsto>
              \<lparr> startTime = t, timeElapsed = Num 0, timeElapsedOvershoot = Num 0,
                bytesDownloaded = Num 0, estimatedTimeElapsed = None, endTime = None \<rparr>),
           connectionsInUse := set_add (connectionRef e (connectionId r)) (connectionsInUse e)\<rparr>"
    from room assms(1) have "length (nodesInProcess e) < cap" by (simp add: js_ge_def)
    moreover have "length (set_add n (nodesInProcess e)) \<le> Suc (length (nodesInProcess e))"
      by (simp add: set_add_def)
    ultimately show ?thesis unfolding eq by simp
  qed
qed

lemma setConnectionThroughput_frame:
  assumes "setConnectionThroughput connection e = Some (Inr e')"
  shows "same_setup e e'" and "nodesInProcess e' = nodesInProcess e"
    and "connectionsInUse e' = connectionsInUse e" and "nodesInQueue e' = nodesInQueue e"
    and "nodesCompleted e' = nodesCompleted e" and "nodeAuxiliaryData e' = nodeAuxiliaryData e"
proof -
  from assms obtain cid c where c: "connections e cid = Some c"
    and e': "e' = e\<lparr>connections := (connections e)(cid \<mapsto>
       setThroughput (js_div (e_throughput e) (Num (real (length (nodesInProcess e))))) c)\<rparr>"
    by (rule setConnectionThroughput_effect)
  show "same_setup e e'" unfolding e' using c by (simp add: same_setup_def)
  show "nodesInProcess e' = nodesInProcess e" "connectionsInUse e' = connectionsInUse e"
    "nodesInQueue e' = nodesInQueue e" "nodesCompleted e' = nodesCompleted e"
    "nodeAuxiliaryData e' = nodeAuxiliaryData e"
    unfolding e' by simp_all
qed

lemma estimateTimeRemaining_frame:
  assumes "estimateTimeRemaining n e = Some (Inr (est, e'))"
  shows "same_setup e e'" and "nodesInProcess e' = nodesInProcess e"
    and "connectionsInUse e' = connectionsInUse e" and "nodesInQueue e' = nodesInQueue e"
    and "nodesCompleted e' = nodesCompleted e" and "connections e' = connections e"
proof -
  from assms obtain aux where
    e': "e' = e\<lparr>nodeAuxiliaryData := (nodeAuxiliaryData e)(n \<mapsto>
            aux\<lparr>estimatedTimeElapsed := Some est\<rparr>)\<rparr>"
    by (rule estimateTimeRemaining_effect)
  show "same_setup e e'" unfolding e' by (simp add: same_setup_def)
  show "nodesInProcess e' = nodesInProcess e" "connectionsInUse e' = connectionsInUse e"
    "nodesInQueue e' = nodesInQueue e" "nodesCompleted e' = nodesCompleted e"
    "connections e' = connections e"
    unfolding e' by simp_all
qed

lemma completeNode_effect:
  "\<exists>q. completeNode tt n r aux c1 e =
       e\<lparr>connections := (connections e)(connectionId r \<mapsto> setWarmed True c1),
         nodeAuxiliaryData := (nodeAuxiliaryData e)(n \<mapsto> aux\<lparr>endTime := Some tt\<rparr>),
         nodesCompleted := set_add n (nodesCompleted e),
         nodesInProcess := set_delete n (nodesInProcess e),
         nodesInQueue := q,
         connectionsInUse := set_delete (Some (connectionId r)) (connectionsInUse e)\<rparr>
     \<and> set (nodesInQueue e) \<subseteq> set q
     \<and> set q \<subseteq> set (dependents (node (graph e) n)) \<union> set (nodesInQueue e)"
proof -
  let ?e1 = "e\<lparr>
            connections := (connections e)(connectionId r \<mapsto> setWarmed True c1),
            nodeAuxiliaryData := (nodeAuxiliaryData e)(n \<mapsto> aux\<lparr>endTime := Some tt\<rparr>),
            nodesCompleted := set_add n (nodesCompleted e),
            nodesInProcess := set_delete n (nodesInProcess e),
            connectionsInUse := set_delete (Some (connectionId r)) (connectionsInUse e)\<rparr>"
  from fold_enqueueNodeIfPossible_effect[of "dependents (node (graph e) n)" ?e1]
  obtain q where q: "fold enqueueNodeIfPossible (dependents (node (graph e) n)) ?e1
       = ?e1\<lparr>nodesInQueue := q\<rparr>"
    "set (nodesInQueue ?e1) \<subseteq> set q"
    "set q \<subseteq> set (dependents (node (graph e) n)) \<union> set (nodesInQueue ?e1)" by blast
  have "completeNode tt n r aux c1 e = ?e1\<lparr>nodesInQueue := q\<rparr>"
    using q(1) by (simp add: completeNode_def Let_def)
  then show ?thesis using q(2,3) by (intro exI[of _ q]) simp
qed

lemma updateProgressMadeInTimePeriod_basic:
  assumes inv: "in_flight_consistent e" and n: "n \<in> set (nodesInProcess e)"
    and upd: "updateProgressMadeInTimePeriod m tt n e = Some (Inr e')"
  shows "in_flight_consistent e'" and "same_setup e e'"
    and "nodesInProcess e' = nodesInProcess e \<or> nodesInProcess e' = removeAll n (nodesInProcess e)"
proof -
  from upd obtain r aux conn calc where r: "kind (node (graph e) n) = NETWORK r"
    and conn: "connections e (connectionId r) = Some conn"
    and cases: "(\<exists>est. estimatedTimeElapsed aux = Some est \<and> js_eq est m \<and>
        e' = completeNode tt n r aux (setCongestionWindow (r_congestionWindow calc) conn) e)
     \<or> (\<not> (\<exists>est. estimatedTimeElapsed aux = Some est \<and> js_eq est m) \<and>
        e' = recordProgress m n r aux calc (setCongestionWindow (r_congestionWindow calc) conn) e)"
    by (rule updateProgressMadeInTimePeriod_effect)
  have ref: "nodeConnectionRef e n = Some (connectionId r)"
    using r conn by (simp add: nodeConnectionRef_def connectionRef_def)
  from cases have "in_flight_consistent e' \<and> same_setup e e' \<and>
     (nodesInProcess e' = nodesInProcess e \<or> nodesInProcess e' = removeAll n (nodesInProcess e))"
  proof
    assume "\<exists>est. estimatedTimeElapsed aux = Some est \<and> js_eq est m \<and>
        e' = completeNode tt n r aux (setCongestionWindow (r_congestionWindow calc) conn) e"
    then have c: "e' = completeNode tt n r aux (setCongestionWindow (r_congestionWindow calc) conn) e"
      by blast
    from completeNode_effect[of tt n r aux "setCongestionWindow (r_congestionWindow calc) conn" e]
    obtain q where e': "e' = e\<lparr>connections := (connections e)(connectionId r \<mapsto>
           setWarmed True (setCongestionWindow (r_congestionWindow calc) conn)),
         nodeAuxiliaryData := (nodeAuxiliaryData e)(n \<mapsto> aux\<lparr>endTime := Some tt\<rparr>),
         nodesCompleted := set_add n (nodesCompleted e),
         nodesInProcess := set_delete n (nodesInProcess e),
         nodesInQueue := q,
         connectionsInUse := set_delete (Some (connectionId r)) (connectionsInUse e)\<rparr>"
      unfolding c by blast
    have same: "same_setup e e'" unfolding e' using conn by (simp add: same_setup_def)
    have p: "nodesInProcess e' = removeAll n (nodesInProcess e)"
      unfolding e' by (simp add: set_delete_def)
    have u: "connectionsInUse e' = removeAll (Some (connectionId r)) (connectionsInUse e)"
      unfolding e' by (simp add: set_delete_def)
    have g: "graph e' = graph e" unfolding e' by simp
    note d = in_flight_consistentD[OF inv]
    have "in_flight_consistent e'"
    proof (rule in_flight_consistentI)
      show "list_all (is_network (graph e')) (nodesInProcess e')"
        using d(1) unfolding p g by (simp add: list_all_iff)
      have "map (nodeConnectionRef e') (removeAll n (nodesInProcess e))
          = map (nodeConnectionRef e) (removeAll n (nodesInProcess e))"
        using nodeConnectionRef_same[OF same] by simp
      also have "\<dots> = removeAll (nodeConnectionRef e n) (map (nodeConnectionRef e) (nodesInProcess e))"
        using d(2,3) n by (intro map_removeAll_distinct) simp_all
      finally show "connectionsInUse e' = map (nodeConnectionRef e') (nodesInProcess e')"
        unfolding p u using d(2) ref by simp
      show "distinct (connectionsInUse e')" unfolding u using d(3) by (simp add: distinct_removeAll)
    qed
    with same p show ?thesis by blast
  next
    assume "\<not> (\<exists>est. estimatedTimeElapsed aux = Some est \<and> js_eq est m) \<and>
        e' = recordProgress m n r aux calc (setCongestionWindow (r_congestionWindow calc) conn) e"
    then have e': "e' = recordProgress m n r aux calc
        (setCongestionWindow (r_congestionWindow calc) conn) e" by blast
    have same: "same_setup e e'" unfolding e' using conn
      by (simp add: same_setup_def recordProgress_def)
    have p: "nodesInProcess e' = nodesInProcess e" "connectionsInUse e' = connectionsInUse e"
      unfolding e' by (simp_all add: recordProgress_def)
    from in_flight_consistent_same_sets[OF inv same p] same p(1) show ?thesis by blast
  qed
  then show "in_flight_consistent e'" and "same_setup e e'"
    and "nodesInProcess e' = nodesInProcess e \<or> nodesInProcess e' = removeAll n (nodesInProcess e)"
    by blast+
qed

section \<open>The invariant through one run of the body of the main loop\<close>

lemma run_invD:
  assumes "run_inv e"
  shows "in_flight_consistent e"
    and "e_maximumConcurrentRequests e = Num (real cap) \<Longrightarrow> length (nodesInProcess e) \<le> cap"
  using assms unfolding run_inv_def by blast+

lemma run_invI:
  assumes "in_flight_consistent e"
    and "\<And>cap. e_maximumConcurrentRequests e = Num (real cap) \<Longrightarrow> length (nodesInProcess e) \<le> cap"
  shows "run_inv e"
  using assms unfolding run_inv_def by blast

lemma same_setup_cap: "same_setup e e' \<Longrightarrow> e_maximumConcurrentRequests e' = e_maximumConcurrentRequests e"
  unfolding same_setup_def by blast

lemma same_setup_graph: "same_setup e e' \<Longrightarrow> graph e' = graph e"
  unfolding same_setup_def by blast

lemma run_inv_same_sets:
  assumes "run_inv e" "same_setup e e'"
    "nodesInProcess e' = nodesInProcess e" "connectionsInUse e' = connectionsInUse e"
  shows "run_inv e'"
proof (rule run_invI)
  show "in_flight_consistent e'"
    using in_flight_consistent_same_sets[OF run_invD(1)[OF assms(1)] assms(2,3,4)] .
  fix cap assume "e_maximumConcurrentRequests e' = Num (real cap)"
  then have "e_maximumConcurrentRequests e = Num (real cap)" using same_setup_cap[OF assms(2)] by simp
  from run_invD(2)[OF assms(1) this] show "length (nodesInProcess e') \<le> cap" using assms(3) by simp
qed

lemma startNodeIfPossible_run_inv:
  assumes "run_inv e"
  shows "run_inv (startNodeIfPossible t n e)"
proof (rule run_invI)
  show "in_flight_consistent (startNodeIfPossible t n e)"
    using startNodeIfPossible_in_flight[OF run_invD(1)[OF assms]] .
  fix cap assume "e_maximumConcurrentRequests (startNodeIfPossible t n e) = Num (real cap)"
  then have c: "e_maximumConcurrentRequests e = Num (real cap)"
    using same_setup_cap[OF startNodeIfPossible_same_setup[of e t n]] by simp
  from startNodeIfPossible_count[OF c run_invD(2)[OF assms c]]
  show "length (nodesInProcess (startNodeIfPossible t n e)) \<le> cap" .
qed

lemma admit_run_inv:
  assumes "run_inv e"
  shows "run_inv (fold (startNodeIfPossible t) xs e) \<and> same_setup e (fold (startNodeIfPossible t) xs e)"
proof -
  have "run_inv e \<and> same_setup e e" using assms same_setup_refl by simp
  then show ?thesis
    using fold_invariant[where Q = "\<lambda>rest s. run_inv s \<and> same_setup e s"
         and f = "startNodeIfPossible t" and ys = xs and zs = "[]" and s = e]
       startNodeIfPossible_run_inv same_setup_trans startNodeIfPossible_same_setup
    by blast
qed

lemma capacity_run_inv:
  assumes "run_inv e" "for_each setConnectionThroughput xs e = Some (Inr e')"
  shows "run_inv e' \<and> same_setup e e' \<and> nodesInProcess e' = nodesInProcess e
     \<and> nodesInQueue e' = nodesInQueue e"
proof (rule for_each_invariant[where Q = "\<lambda>rest s. run_inv s \<and> same_setup e s
      \<and> nodesInProcess s = nodesInProcess e \<and> nodesInQueue s = nodesInQueue e"
      and zs = "[]", OF assms(2)])
  show "run_inv e \<and> same_setup e e \<and> nodesInProcess e = nodesInProcess e
     \<and> nodesInQueue e = nodesInQueue e" using assms(1) same_setup_refl by simp
next
  fix x rest s s'
  assume q: "run_inv s \<and> same_setup e s \<and> nodesInProcess s = nodesInProcess e
      \<and> nodesInQueue s = nodesInQueue e"
    and st: "setConnectionThroughput x s = Some (Inr s')"
  note f = setConnectionThroughput_frame[OF st]
  have "run_inv s'" using run_inv_same_sets[OF _ f(1) f(2) f(3)] q by blast
  moreover have "same_setup e s'" using same_setup_trans[OF _ f(1)] q by blast
  ultimately show "run_inv s' \<and> same_setup e s' \<and> nodesInProcess s' = nodesInProcess e
      \<and> nodesInQueue s' = nodesInQueue e" using f(2,4) q by simp
qed

lemma nextCompletionStep_effect:
  assumes "nextCompletionStep n (m, e) = Some (Inr (m', e'))"
  obtains est where "estimateTimeRemaining n e = Some (Inr (est, e'))" "m' = js_min m est"
  using assms
  by (auto simp: nextCompletionStep_def bind_result_def split: option.splits sum.splits prod.splits)

lemma find_run_inv:
  assumes "run_inv e" "for_each nextCompletionStep xs (m0, e) = Some (Inr (m, e'))"
  shows "run_inv e' \<and> same_setup e e' \<and> nodesInProcess e' = nodesInProcess e
     \<and> nodesInQueue e' = nodesInQueue e"
proof -
  have "case (m, e') of (mm, s) \<Rightarrow> run_inv s \<and> same_setup e s
      \<and> nodesInProcess s = nodesInProcess e \<and> nodesInQueue s = nodesInQueue e"
  proof (rule for_each_invariant[where Q = "\<lambda>rest ms. case ms of (mm, s) \<Rightarrow> run_inv s \<and> same_setup e s
      \<and> nodesInProcess s = nodesInProcess e \<and> nodesInQueue s = nodesInQueue e"
      and zs = "[]", OF assms(2)])
    show "case (m0, e) of (mm, s) \<Rightarrow> run_inv s \<and> same_setup e s
      \<and> nodesInProcess s = nodesInProcess e \<and> nodesInQueue s = nodesInQueue e"
      using assms(1) same_setup_refl by simp
  next
    fix x rest ms ms'
    assume q: "case ms of (mm, s) \<Rightarrow> run_inv s \<and> same_setup e s
      \<and> nodesInProcess s = nodesInProcess e \<and> nodesInQueue s = nodesInQueue e"
      and st: "nextCompletionStep x ms = Some (Inr ms')"
    obtain mm s where ms: "ms = (mm, s)" by (cases ms)
    obtain mm' s' where ms': "ms' = (mm', s')" by (cases ms')
    from st ms ms' obtain est where est: "estimateTimeRemaining x s = Some (Inr (est, s'))"
      by (auto elim: nextCompletionStep_effect)
    note f = estimateTimeRemaining_frame[OF est]
    have "run_inv s'" using run_inv_same_sets[OF _ f(1) f(2) f(3)] q ms by simp
    moreover have "same_setup e s'" using same_setup_trans[OF _ f(1)] q ms by simp
    ultimately show "case ms' of (mm, s) \<Rightarrow> run_inv s \<and> same_setup e s
      \<and> nodesInProcess s = nodesInProcess e \<and> nodesInQueue s = nodesInQueue e"
      using f(2,4) q ms ms' by simp
  qed
  then show ?thesis by simp
qed

lemma updateProgressMadeInTimePeriod_run_inv:
  assumes "run_inv e" "n \<in> set (nodesInProcess e)"
    "updateProgressMadeInTimePeriod m tt n e = Some (Inr e')"
  shows "run_inv e'"
proof (rule run_invI)
  note b = updateProgressMadeInTimePeriod_basic[OF run_invD(1)[OF assms(1)] assms(2,3)]
  show "in_flight_consistent e'" by (rule b(1))
  fix cap assume "e_maximumConcurrentRequests e' = Num (real cap)"
  then have "e_maximumConcurrentRequests e = Num (real cap)" using same_setup_cap[OF b(2)] by simp
  from run_invD(2)[OF assms(1) this] have l: "length (nodesInProcess e) \<le> cap" .
  have "length (removeAll n (nodesInProcess e)) \<le> length (nodesInProcess e)"
    by (rule length_removeAll_less_eq)
  with l have "length (removeAll n (nodesInProcess e)) \<le> cap" by linarith
  with l b(3) show "length (nodesInProcess e') \<le> cap" by metis
qed

lemma update_loop_run_inv:
  assumes "run_inv e" "for_each (updateProgressMadeInTimePeriod m tt) ys e = Some (Inr e')"
    "distinct (ys @ zs)" "set (ys @ zs) \<subseteq> set (nodesInProcess e)"
  shows "run_inv e' \<and> same_setup e e' \<and> set zs \<subseteq> set (nodesInProcess e')"
proof -
  have "run_inv e' \<and> same_setup e e' \<and> distinct zs \<and> set zs \<subseteq> set (nodesInProcess e')"
  proof (rule for_each_invariant[where Q = "\<lambda>rest s. run_inv s \<and> same_setup e s
      \<and> distinct rest \<and> set rest \<subseteq> set (nodesInProcess s)", OF assms(2)])
    show "run_inv e \<and> same_setup e e \<and> distinct (ys @ zs) \<and> set (ys @ zs) \<subseteq> set (nodesInProcess e)"
      using assms same_setup_refl by simp
  next
    fix x rest s s'
    assume q: "run_inv s \<and> same_setup e s \<and> distinct (x # rest)
        \<and> set (x # rest) \<subseteq> set (nodesInProcess s)"
      and st: "updateProgressMadeInTimePeriod m tt x s = Some (Inr s')"
    from q have x: "x \<in> set (nodesInProcess s)" and inv: "run_inv s" by simp_all
    note b = updateProgressMadeInTimePeriod_basic[OF run_invD(1)[OF inv] x st]
    have "set rest \<subseteq> set (nodesInProcess s')"
    proof
      fix y assume y: "y \<in> set rest"
      with q have "y \<noteq> x" "y \<in> set (nodesInProcess s)" by auto
      with b(3) show "y \<in> set (nodesInProcess s')" by auto
    qed
    moreover have "run_inv s'" using updateProgressMadeInTimePeriod_run_inv[OF inv x st] .
    moreover have "same_setup e s'" using same_setup_trans[OF _ b(2)] q by blast
    ultimately show "run_inv s' \<and> same_setup e s' \<and> distinct rest \<and> set rest \<subseteq> set (nodesInProcess s')"
      using q by simp
  qed
  then show ?thesis by blast
qed

lemma estimate_iteration_Inr:
  assumes "estimate_iteration e t = Some (Inr (e', t'))"
  obtains e2 m e3 where "updateNetworkCapacity (admitQueuedNodes t e) = Some (Inr e2)"
    "findNextNodeCompletionTime e2 = Some (Inr (m, e3))"
    "for_each (updateProgressMadeInTimePeriod m (js_add t m)) (nodesInProcess e3) e3 = Some (Inr e')"
    "t' = js_add t m"
  using assms
  by (auto simp: estimate_iteration_def bind_result_def Let_def
           split: option.splits sum.splits prod.splits)

lemma in_flight_distinct:
  assumes "in_flight_consistent e"
  shows "distinct (nodesInProcess e)"
proof -
  from in_flight_consistentD(2,3)[OF assms]
  have "distinct (map (nodeConnectionRef e) (nodesInProcess e))" by simp
  then show ?thesis by (simp add: distinct_map)
qed

lemma estimate_iteration_run_inv:
  assumes "run_inv e" "estimate_iteration e t = Some (Inr (e', t'))"
  shows "run_inv e'" and "same_setup e e'"
proof -
  from assms(2) obtain e2 m e3 where
    cap: "updateNetworkCapacity (admitQueuedNodes t e) = Some (Inr e2)"
    and find: "findNextNodeCompletionTime e2 = Some (Inr (m, e3))"
    and upd: "for_each (updateProgressMadeInTimePeriod m (js_add t m)) (nodesInProcess e3) e3
        = Some (Inr e')"
    by (rule estimate_iteration_Inr)
  from admit_run_inv[OF assms(1), of t "nodesInQueue e"]
  have 1: "run_inv (admitQueuedNodes t e)" "same_setup e (admitQueuedNodes t e)"
    by (simp_all add: admitQueuedNodes_def)
  from capacity_run_inv[OF 1(1) cap[unfolded updateNetworkCapacity_def]]
  have 2: "run_inv e2" "same_setup (admitQueuedNodes t e) e2" by simp_all
  from find_run_inv[OF 2(1) find[unfolded findNextNodeCompletionTime_def]]
  have 3: "run_inv e3" "same_setup e2 e3" by simp_all
  have "distinct (nodesInProcess e3 @ [])" "set (nodesInProcess e3 @ []) \<subseteq> set (nodesInProcess e3)"
    using in_flight_distinct[OF run_invD(1)[OF 3(1)]] by simp_all
  from update_loop_run_inv[OF 3(1) upd this]
  have 4: "run_inv e'" "same_setup e3 e'" by simp_all
  show "run_inv e'" by (rule 4(1))
  show "same_setup e e'"
    using same_setup_trans[OF same_setup_trans[OF same_setup_trans[OF 1(2) 2(2)] 3(2)] 4(2)] .
qed

text \<open>The state with which the main loop starts.\<close>

lemma estimate_init_effect:
  assumes "estimate_init g options = Some (Inr e)"
  obtains conns where
    "e = (new_Estimator g options)\<lparr>
           networkRecords := networkRecords (initializeNetworkRecords (new_Estimator g options)),
           connections := conns, nodesInQueue := [rootNode g]\<rparr>"
proof -
  let ?e0 = "initializeNetworkRecords (new_Estimator g options)"
  from assms obtain e1 where e1: "initializeNetworkConnections ?e0 = Some (Inr e1)"
    and e: "e = (initializeAuxiliaryData e1)\<lparr>nodesInQueue :=
          set_add (rootNode g) (nodesInQueue (initializeAuxiliaryData e1))\<rparr>"
    by (auto simp: estimate_init_def bind_result_def Let_def split: option.splits sum.splits)
  from e1 obtain conns where c: "e1 = ?e0\<lparr>connections := conns\<rparr>"
    by (auto simp: initializeNetworkConnections_def bind_result_def split: option.splits sum.splits)
  have "e = (new_Estimator g options)\<lparr>
           networkRecords := networkRecords ?e0,
           connections := conns, nodesInQueue := [rootNode g]\<rparr>"
    unfolding e c
    by (simp add: initializeAuxiliaryData_def initializeNetworkRecords_def new_Estimator_def
          set_add_def Let_def)
  then show ?thesis by (rule that)
qed

lemma estimate_init_state:
  assumes "estimate_init g options = Some (Inr e)"
  shows "graph e = g" and "nodesInProcess e = []" and "connectionsInUse e = []"
    and "nodesInQueue e = [rootNode g]" and "nodesCompleted e = []"
    and "e_maximumConcurrentRequests e = e_maximumConcurrentRequests (new_Estimator g options)"
    and "e_rtt e = e_rtt (new_Estimator g options)"
    and "e_throughput e = e_throughput (new_Estimator g options)"
    and "e_defaultResponseTime e = e_defaultResponseTime (new_Estimator g options)"
proof -
  from assms obtain conns where
    e: "e = (new_Estimator g options)\<lparr>
           networkRecords := networkRecords (initializeNetworkRecords (new_Estimator g options)),
           connections := conns, nodesInQueue := [rootNode g]\<rparr>"
    by (rule estimate_init_effect)
  show "graph e = g" "nodesInProcess e = []" "connectionsInUse e = []"
    "nodesInQueue e = [rootNode g]" "nodesCompleted e = []"
    unfolding e by (simp_all add: new_Estimator_def Let_def)
  show "e_maximumConcurrentRequests e = e_maximumConcurrentRequests (new_Estimator g options)"
    "e_rtt e = e_rtt (new_Estimator g options)"
    "e_throughput e = e_throughput (new_Estimator g options)"
    "e_defaultResponseTime e = e_defaultResponseTime (new_Estimator g options)"
    unfolding e by simp_all
qed

lemma estimate_init_run_inv:
  assumes "estimate_init g options = Some (Inr e)"
  shows "run_inv e"
  using estimate_init_state(2,3)[OF assms]
  by (simp add: run_inv_def in_flight_consistent_def)

lemma run_config_same_setup:
  "run_config g options e \<Longrightarrow> same_setup e e' \<Longrightarrow> run_config g options e'"
  by (simp add: run_config_def same_setup_def)

lemma loop_head_run_inv:
  assumes "loop_head g options e depth t"
  shows "run_inv e \<and> run_config g options e"
  using assms
proof (induction rule: loop_head.induct)
  case (loop_head_init e)
  then show ?case
    using estimate_init_run_inv estimate_init_state by (simp add: run_config_def)
next
  case (loop_head_next e depth t e' t')
  then show ?case
    using estimate_iteration_run_inv run_config_same_setup by blast
qed

lemma visited_run_inv:
  assumes "visited g options e"
  shows "run_inv e \<and> run_config g options e"
  using assms
proof (cases rule: visited.cases)
  case (visited_head depth t)
  then show ?thesis using loop_head_run_inv by blast
next
  case (visited_admit e0 depth t k)
  from loop_head_run_inv[OF visited_admit(2)] have h: "run_inv e0" "run_config g options e0"
    by simp_all
  from admit_run_inv[OF h(1), of t "take k (nodesInQueue e0)"] h(2) visited_admit(1)
  show ?thesis using run_config_same_setup by blast
next
  case (visited_capacity e0 depth t k)
  from loop_head_run_inv[OF visited_capacity(1)] have h: "run_inv e0" "run_config g options e0"
    by simp_all
  from admit_run_inv[OF h(1), of t "nodesInQueue e0"]
  have 1: "run_inv (admitQueuedNodes t e0)" "same_setup e0 (admitQueuedNodes t e0)"
    by (simp_all add: admitQueuedNodes_def)
  from capacity_run_inv[OF 1(1) visited_capacity(3)]
  have "run_inv e" "same_setup (admitQueuedNodes t e0) e" by simp_all
  then show ?thesis using h(2) 1(2) run_config_same_setup by blast
next
  case (visited_estimate e0 depth t e2 k m)
  from loop_head_run_inv[OF visited_estimate(1)] have h: "run_inv e0" "run_config g options e0"
    by simp_all
  from admit_run_inv[OF h(1), of t "nodesInQueue e0"]
  have 1: "run_inv (admitQueuedNodes t e0)" "same_setup e0 (admitQueuedNodes t e0)"
    by (simp_all add: admitQueuedNodes_def)
  from capacity_run_inv[OF 1(1) visited_estimate(3)[unfolded updateNetworkCapacity_def]]
  have 2: "run_inv e2" "same_setup (admitQueuedNodes t e0) e2" by simp_all
  from find_run_inv[OF 2(1) visited_estimate(4)]
  have "run_inv e" "same_setup e2 e" by simp_all
  then show ?thesis using h(2) 1(2) 2(2) run_config_same_setup by blast
next
  case (visited_update e0 depth t e2 m e3 k)
  from loop_head_run_inv[OF visited_update(1)] have h: "run_inv e0" "run_config g options e0"
    by simp_all
  from admit_run_inv[OF h(1), of t "nodesInQueue e0"]
  have 1: "run_inv (admitQueuedNodes t e0)" "same_setup e0 (admitQueuedNodes t e0)"
    by (simp_all add: admitQueuedNodes_def)
  from capacity_run_inv[OF 1(1) visited_update(3)[unfolded updateNetworkCapacity_def]]
  have 2: "run_inv e2" "same_setup (admitQueuedNodes t e0) e2" by simp_all
  from find_run_inv[OF 2(1) visited_update(4)[unfolded findNextNodeCompletionTime_def]]
  have 3: "run_inv e3" "same_setup e2 e3" by simp_all
  have "distinct (take k (nodesInProcess e3) @ drop k (nodesInProcess e3))"
    "set (take k (nodesInProcess e3) @ drop k (nodesInProcess e3)) \<subseteq> set (nodesInProcess e3)"
    using in_flight_distinct[OF run_invD(1)[OF 3(1)]] by simp_all
  from update_loop_run_inv[OF 3(1) visited_update(5) this]
  have "run_inv e" "same_setup e3 e" by simp_all
  then show ?thesis using h(2) 1(2) 2(2) 3(2) run_config_same_setup by blast
qed

section \<open>The bound on the nodes in process\<close>







section \<open>Runs on the example inputs\<close>

lemmas estimator_defs =
  estimate_def estimate_init_def new_Estimator_def initializeNetworkRecords_def
  initializeNetworkConnections_def initializeAuxiliaryData_def connectionForRecords_def
  groupBy_def getResponseTime_def bind_result_def set_add_def set_delete_def
  DEFAULT_MAXIMUM_CONCURRENT_REQUESTS_def DEFAULT_RESPONSE_TIME_def DEFAULT_RTT_def
  DEFAULT_THROUGHPUT_def maximumSaturatedConnections_def estimate_iteration_def
  admitQueuedNodes_def startNodeIfPossible_def connectionRef_def updateNetworkCapacity_def
  setConnectionThroughput_def setThroughput_def findNextNodeCompletionTime_def
  nextCompletionStep_def estimateTimeRemaining_def updateProgressMadeInTimePeriod_def
  completeNode_def recordProgress_def enqueueNodeIfPossible_def setCongestionWindow_def
  setWarmed_def js_ge_def





section \<open>What a run can throw\<close>

lemma setConnectionThroughput_error:
  "setConnectionThroughput x e = Some (Inl err) \<Longrightarrow> err = TypeError"
  by (auto simp: setConnectionThroughput_def split: option.splits)

lemma estimateTimeRemaining_error:
  "estimateTimeRemaining n e = Some (Inl err) \<Longrightarrow> is_network (graph e) n \<Longrightarrow> err = TypeError"
  by (auto simp: estimateTimeRemaining_def is_network_def Let_def
           split: node_kind.splits option.splits prod.splits)

lemma updateProgressMadeInTimePeriod_error:
  "updateProgressMadeInTimePeriod m tt n e = Some (Inl err) \<Longrightarrow> is_network (graph e) n \<Longrightarrow>
   err = TypeError"
  by (auto simp: updateProgressMadeInTimePeriod_def is_network_def Let_def
           split: node_kind.splits option.splits prod.splits if_splits)

lemma in_process_is_network:
  "run_inv e \<Longrightarrow> n \<in> set (nodesInProcess e) \<Longrightarrow> is_network (graph e) n"
  using in_flight_consistentD(1)[OF run_invD(1)] by (auto simp: list_all_iff)

lemma capacity_error:
  assumes "for_each setConnectionThroughput xs e = Some (Inl err)"
  shows "err = TypeError"
proof -
  from for_each_fails[where Q = "\<lambda>rest s. True" and zs = "[]", OF assms]
  obtain x s0 where "setConnectionThroughput x s0 = Some (Inl err)" by auto
  then show ?thesis by (rule setConnectionThroughput_error)
qed

lemma find_error:
  assumes "run_inv e" "for_each nextCompletionStep (nodesInProcess e) (m0, e) = Some (Inl err)"
  shows "err = TypeError"
proof -
  let ?Q = "\<lambda>rest ms. case ms of (mm, s) \<Rightarrow> run_inv s \<and> set rest \<subseteq> set (nodesInProcess s)"
  have "\<exists>x rest s0. ?Q (x # rest) s0 \<and> nextCompletionStep x s0 = Some (Inl err)"
  proof (rule for_each_fails[where Q = ?Q and zs = "[]", OF assms(2)])
    show "Some (Inl err) = None \<or> Some (Inl err) = Some (Inl err)" by simp
    show "?Q (nodesInProcess e @ []) (m0, e)" using assms(1) by simp
  next
    fix x rest ms ms'
    assume q: "?Q (x # rest) ms" and st: "nextCompletionStep x ms = Some (Inr ms')"
    obtain mm s where ms: "ms = (mm, s)" by (cases ms)
    obtain mm' s' where ms': "ms' = (mm', s')" by (cases ms')
    from st ms ms' obtain est where est: "estimateTimeRemaining x s = Some (Inr (est, s'))"
      by (auto elim: nextCompletionStep_effect)
    note f = estimateTimeRemaining_frame[OF est]
    have "run_inv s'" using run_inv_same_sets[OF _ f(1) f(2) f(3)] q ms by simp
    then show "?Q rest ms'" using q ms ms' f(2) by simp
  qed
  then obtain x rest mm s0 where q: "run_inv s0" "x \<in> set (nodesInProcess s0)"
    and st: "nextCompletionStep x (mm, s0) = Some (Inl err)" by auto
  from st have "estimateTimeRemaining x s0 = Some (Inl err)"
    by (auto simp: nextCompletionStep_def bind_result_def split: option.splits sum.splits)
  then show ?thesis using in_process_is_network[OF q] by (rule estimateTimeRemaining_error)
qed

lemma update_loop_error:
  assumes "run_inv e"
    "for_each (updateProgressMadeInTimePeriod m tt) (nodesInProcess e) e = Some (Inl err)"
  shows "err = TypeError"
proof -
  let ?Q = "\<lambda>rest s. run_inv s \<and> distinct rest \<and> set rest \<subseteq> set (nodesInProcess s)"
  have "\<exists>x rest s0. ?Q (x # rest) s0 \<and> updateProgressMadeInTimePeriod m tt x s0 = Some (Inl err)"
  proof (rule for_each_fails[where Q = ?Q and zs = "[]", OF assms(2)])
    show "Some (Inl err) = None \<or> Some (Inl err) = Some (Inl err)" by simp
    show "?Q (nodesInProcess e @ []) e"
      using assms(1) in_flight_distinct[OF run_invD(1)[OF assms(1)]] by simp
  next
    fix x rest s s'
    assume q: "?Q (x # rest) s" and st: "updateProgressMadeInTimePeriod m tt x s = Some (Inr s')"
    from q have x: "x \<in> set (nodesInProcess s)" and inv: "run_inv s" by simp_all
    from update_loop_run_inv[of s m tt "[x]" s' rest] inv st q
    show "?Q rest s'" by (simp add: bind_result_def)
  qed
  then obtain x rest s0 where q: "run_inv s0" "x \<in> set (nodesInProcess s0)"
    and st: "updateProgressMadeInTimePeriod m tt x s0 = Some (Inl err)" by auto
  from st in_process_is_network[OF q] show ?thesis by (rule updateProgressMadeInTimePeriod_error)
qed

lemma estimate_iteration_error:
  assumes "run_inv e" "estimate_iteration e t = Some (Inl err)"
  shows "err = TypeError"
proof -
  from admit_run_inv[OF assms(1), of t "nodesInQueue e"]
  have 1: "run_inv (admitQueuedNodes t e)" by (simp add: admitQueuedNodes_def)
  show ?thesis
  proof (cases "updateNetworkCapacity (admitQueuedNodes t e)")
    case None
    with assms(2) show ?thesis by (simp add: estimate_iteration_def bind_result_def)
  next
    case (Some a)
    show ?thesis
    proof (cases a)
      case (Inl x)
      with Some assms(2) have "x = err" by (simp add: estimate_iteration_def bind_result_def)
      with Some Inl show ?thesis using capacity_error by (simp add: updateNetworkCapacity_def)
    next
      case (Inr e2)
      from capacity_run_inv[OF 1 Some[unfolded Inr updateNetworkCapacity_def]]
      have 2: "run_inv e2" by simp
      show ?thesis
      proof (cases "findNextNodeCompletionTime e2")
        case None
        with Some Inr assms(2) show ?thesis by (simp add: estimate_iteration_def bind_result_def)
      next
        case (Some b)
        note fb = this
        show ?thesis
        proof (cases b)
          case (Inl x)
          with fb \<open>updateNetworkCapacity (admitQueuedNodes t e) = Some a\<close> Inr assms(2)
          have "x = err" by (simp add: estimate_iteration_def bind_result_def)
          with fb Inl show ?thesis using find_error[OF 2] by (simp add: findNextNodeCompletionTime_def)
        next
          case (Inr me3)
          obtain m e3 where me3: "me3 = (m, e3)" by (cases me3)
          from find_run_inv[OF 2 fb[unfolded Inr me3 findNextNodeCompletionTime_def]]
          have 3: "run_inv e3" by simp
          from fb Inr me3 \<open>updateNetworkCapacity (admitQueuedNodes t e) = Some a\<close> \<open>a = Inr e2\<close> assms(2)
          have "for_each (updateProgressMadeInTimePeriod m (js_add t m)) (nodesInProcess e3) e3
              = Some (Inl err)"
            by (auto simp: estimate_iteration_def bind_result_def Let_def
                     split: option.splits sum.splits)
          then show ?thesis using update_loop_error[OF 3] by simp
        qed
      qed
    qed
  qed
qed

lemma estimate_loop_error:
  "run_inv e \<Longrightarrow> estimate_loop e depth t = Some (Inl err) \<Longrightarrow>
   err = TypeError \<or> err = MaximumDepthExceeded"
proof (induction e depth t rule: estimate_loop.induct)
  case (1 e depth t)
  show ?case
  proof (cases "nodesInQueue e \<noteq> [] \<or> nodesInProcess e \<noteq> []")
    case False
    with 1(3) show ?thesis by (subst (asm) estimate_loop.simps) simp
  next
    case True
    show ?thesis
    proof (cases "estimate_iteration e t")
      case None
      with True 1(3) show ?thesis by (subst (asm) estimate_loop.simps) simp
    next
      case (Some a)
      show ?thesis
      proof (cases a)
        case (Inl x)
        with Some True 1(3) have "x = err" by (subst (asm) estimate_loop.simps) simp
        with Some Inl estimate_iteration_error[OF 1(2)] show ?thesis by simp
      next
        case (Inr et)
        obtain e' t' where et: "et = (e', t')" by (cases et)
        show ?thesis
        proof (cases "depth + 1 > 10000")
          case True
          with Some Inr et \<open>nodesInQueue e \<noteq> [] \<or> nodesInProcess e \<noteq> []\<close> 1(3)
          show ?thesis by (subst (asm) estimate_loop.simps) simp
        next
          case False
          with Some Inr et \<open>nodesInQueue e \<noteq> [] \<or> nodesInProcess e \<noteq> []\<close> 1(3)
          have r: "estimate_loop e' (depth + 1) t' = Some (Inl err)"
            by (subst (asm) estimate_loop.simps) simp
          have "run_inv e'" using estimate_iteration_run_inv(1)[OF 1(2)] Some Inr et by simp
          from 1(1)[OF True Some Inr _ False this r] et show ?thesis by simp
        qed
      qed
    qed
  qed
qed

section \<open>The rest of a run, and nodes that stay in the queue\<close>

lemma estimate_from_loop_head:
  assumes "loop_head g options e depth t"
  shows "estimate g options = estimate_loop e depth t"
  using assms
proof (induction rule: loop_head.induct)
  case (loop_head_init e)
  then show ?case by (simp add: estimate_def bind_result_def)
next
  case (loop_head_next e depth t e' t')
  have "estimate_loop e depth t = estimate_loop e' (depth + 1) t'"
    using loop_head_next(2,3,4) by (subst estimate_loop.simps) simp
  with loop_head_next(5) show ?case by simp
qed

lemma startNodeIfPossible_keeps_other:
  assumes "n \<in> set (nodesInQueue e)" "\<not> is_network (graph e) n"
  shows "n \<in> set (nodesInQueue (startNodeIfPossible t x e))"
proof -
  from startNodeIfPossible_cases[of t x e] show ?thesis
  proof (elim disjE exE conjE)
    assume "startNodeIfPossible t x e = e"
    with assms show ?thesis by simp
  next
    fix r
    assume r: "kind (node (graph e) x) = NETWORK r"
      and eq: "startNodeIfPossible t x e =
         e\<lparr>nodesInQueue := set_delete x (nodesInQueue e),
           nodesInProcess := set_add x (nodesInProcess e),
           nodeAuxiliaryData := (nodeAuxiliaryData e)(x \<mapsto>
              \<lparr> startTime = t, timeElapsed = Num 0, timeElapsedOvershoot = Num 0,
                bytesDownloaded = Num 0, estimatedTimeElapsed = None, endTime = None \<rparr>),
           connectionsInUse := set_add (connectionRef e (connectionId r)) (connectionsInUse e)\<rparr>"
    from r assms(2) have "x \<noteq> n" by (auto simp: is_network_def)
    with assms(1) show ?thesis unfolding eq by (simp add: set_delete_def)
  qed
qed

lemma admit_keeps_other:
  assumes "n \<in> set (nodesInQueue e)" "\<not> is_network (graph e) n"
  shows "n \<in> set (nodesInQueue (fold (startNodeIfPossible t) xs e))"
proof -
  have "n \<in> set (nodesInQueue (fold (startNodeIfPossible t) xs e))
      \<and> graph (fold (startNodeIfPossible t) xs e) = graph e"
  proof (rule fold_invariant[where Q = "\<lambda>rest (s::Estimator). n \<in> set (nodesInQueue s) \<and> graph s = graph e"
        and zs = "[]"])
    show "n \<in> set (nodesInQueue e) \<and> graph e = graph e" using assms(1) by simp
  next
    fix x rest and s :: Estimator
    assume q: "n \<in> set (nodesInQueue s) \<and> graph s = graph e"
    then have "n \<in> set (nodesInQueue (startNodeIfPossible t x s))"
      using startNodeIfPossible_keeps_other[of n s t x] assms(2) by simp
    moreover have "graph (startNodeIfPossible t x s) = graph e"
      using same_setup_graph[OF startNodeIfPossible_same_setup[of s t x]] q by simp
    ultimately show "n \<in> set (nodesInQueue (startNodeIfPossible t x s))
      \<and> graph (startNodeIfPossible t x s) = graph e" by simp
  qed
  then show ?thesis by simp
qed

lemma updateProgressMadeInTimePeriod_queue:
  assumes "updateProgressMadeInTimePeriod m tt n e = Some (Inr e')"
  shows "set (nodesInQueue e) \<subseteq> set (nodesInQueue e')"
    and "set (nodesInQueue e') \<subseteq> set (dependents (node (graph e) n)) \<union> set (nodesInQueue e)"
proof -
  from assms obtain r aux conn calc where
    cases: "(\<exists>est. estimatedTimeElapsed aux = Some est \<and> js_eq est m \<and>
        e' = completeNode tt n r aux (setCongestionWindow (r_congestionWindow calc) conn) e)
     \<or> (\<not> (\<exists>est. estimatedTimeElapsed aux = Some est \<and> js_eq est m) \<and>
        e' = recordProgress m n r aux calc (setCongestionWindow (r_congestionWindow calc) conn) e)"
    by (rule updateProgressMadeInTimePeriod_effect)
  then have "set (nodesInQueue e) \<subseteq> set (nodesInQueue e') \<and>
    set (nodesInQueue e') \<subseteq> set (dependents (node (graph e) n)) \<union> set (nodesInQueue e)"
  proof
    assume "\<exists>est. estimatedTimeElapsed aux = Some est \<and> js_eq est m \<and>
        e' = completeNode tt n r aux (setCongestionWindow (r_congestionWindow calc) conn) e"
    then have c: "e' = completeNode tt n r aux (setCongestionWindow (r_congestionWindow calc) conn) e"
      by blast
    from completeNode_effect[of tt n r aux "setCongestionWindow (r_congestionWindow calc) conn" e]
    obtain q where "nodesInQueue e' = q" "set (nodesInQueue e) \<subseteq> set q"
      "set q \<subseteq> set (dependents (node (graph e) n)) \<union> set (nodesInQueue e)"
      unfolding c by force
    then show ?thesis by simp
  next
    assume "\<not> (\<exists>est. estimatedTimeElapsed aux = Some est \<and> js_eq est m) \<and>
        e' = recordProgress m n r aux calc (setCongestionWindow (r_congestionWindow calc) conn) e"
    then show ?thesis by (auto simp: recordProgress_def)
  qed
  then show "set (nodesInQueue e) \<subseteq> set (nodesInQueue e')"
    and "set (nodesInQueue e') \<subseteq> set (dependents (node (graph e) n)) \<union> set (nodesInQueue e)"
    by simp_all
qed

lemma update_loop_queue:
  assumes "for_each (updateProgressMadeInTimePeriod m tt) xs e = Some (Inr e')"
  shows "set (nodesInQueue e) \<subseteq> set (nodesInQueue e')"
proof (rule for_each_invariant[where Q = "\<lambda>rest (s::Estimator). set (nodesInQueue e) \<subseteq> set (nodesInQueue s)"
      and zs = "[]", OF assms])
  show "set (nodesInQueue e) \<subseteq> set (nodesInQueue e)" by simp
next
  fix x rest and s s' :: Estimator
  assume "set (nodesInQueue e) \<subseteq> set (nodesInQueue s)"
    and "updateProgressMadeInTimePeriod m tt x s = Some (Inr s')"
  then show "set (nodesInQueue e) \<subseteq> set (nodesInQueue s')"
    using updateProgressMadeInTimePeriod_queue(1) by blast
qed

lemma estimate_iteration_keeps_other:
  assumes "run_inv e" "estimate_iteration e t = Some (Inr (e', t'))"
    "n \<in> set (nodesInQueue e)" "\<not> is_network (graph e) n"
  shows "n \<in> set (nodesInQueue e')"
proof -
  from assms(2) obtain e2 m e3 where
    cap: "updateNetworkCapacity (admitQueuedNodes t e) = Some (Inr e2)"
    and find: "findNextNodeCompletionTime e2 = Some (Inr (m, e3))"
    and upd: "for_each (updateProgressMadeInTimePeriod m (js_add t m)) (nodesInProcess e3) e3
        = Some (Inr e')"
    by (rule estimate_iteration_Inr)
  from admit_run_inv[OF assms(1), of t "nodesInQueue e"]
  have 1: "run_inv (admitQueuedNodes t e)" by (simp add: admitQueuedNodes_def)
  have a: "n \<in> set (nodesInQueue (admitQueuedNodes t e))"
    using admit_keeps_other[OF assms(3,4)] by (simp add: admitQueuedNodes_def)
  from capacity_run_inv[OF 1 cap[unfolded updateNetworkCapacity_def]]
  have 2: "run_inv e2" "nodesInQueue e2 = nodesInQueue (admitQueuedNodes t e)" by simp_all
  from find_run_inv[OF 2(1) find[unfolded findNextNodeCompletionTime_def]]
  have 3: "nodesInQueue e3 = nodesInQueue e2" by simp
  from update_loop_queue[OF upd] a 2(2) 3 show ?thesis by auto
qed

lemma estimate_loop_stuck:
  "run_inv e \<Longrightarrow> n \<in> set (nodesInQueue e) \<Longrightarrow> \<not> is_network (graph e) n \<Longrightarrow>
   estimate_loop e depth t \<noteq> Some (Inr v)"
proof (induction e depth t rule: estimate_loop.induct)
  case (1 e depth t)
  from 1(3) have ne: "nodesInQueue e \<noteq> [] \<or> nodesInProcess e \<noteq> []" by auto
  show ?case
  proof (cases "estimate_iteration e t")
    case None
    with ne show ?thesis by (subst estimate_loop.simps) simp
  next
    case (Some a)
    show ?thesis
    proof (cases a)
      case (Inl x)
      with Some ne show ?thesis by (subst estimate_loop.simps) simp
    next
      case (Inr et)
      obtain e' t' where et: "et = (e', t')" by (cases et)
      show ?thesis
      proof (cases "depth + 1 > 10000")
        case True
        with Some Inr et ne show ?thesis by (subst estimate_loop.simps) simp
      next
        case False
        have i: "estimate_iteration e t = Some (Inr (e', t'))" using Some Inr et by simp
        have r: "run_inv e'" using estimate_iteration_run_inv(1)[OF 1(2) i] .
        have q: "n \<in> set (nodesInQueue e')"
          using estimate_iteration_keeps_other[OF 1(2) i 1(3,4)] .
        have g: "\<not> is_network (graph e') n"
          using same_setup_graph[OF estimate_iteration_run_inv(2)[OF 1(2) i]] 1(4) by simp
        from 1(1)[OF ne Some Inr _ False r q g] et
        have "estimate_loop e' (depth + 1) t' \<noteq> Some (Inr v)" by simp
        then show ?thesis using Some Inr et ne False by (subst estimate_loop.simps) simp
      qed
    qed
  qed
qed

section \<open>The initialization returns\<close>

lemma alist_update_set: "set (AList.update k v al) \<subseteq> insert (k, v) (set al)"
  by (induction al) auto

lemma groupBy_groups_nonempty:
  assumes "(k, grp) \<in> set (groupBy items keyFunc)"
  shows "grp \<noteq> []"
proof -
  let ?step = "\<lambda>item grouped.
            (let key = keyFunc item;
                 group = (case map_of grouped key of None \<Rightarrow> [] | Some g \<Rightarrow> g)
             in AList.update key (group @ [item]) grouped)"
  have "\<forall>p\<in>set (fold ?step items []). snd p \<noteq> []"
  proof (rule fold_invariant[where Q = "\<lambda>rest al. \<forall>p\<in>set al. snd p \<noteq> []" and zs = "[]"])
    show "\<forall>p\<in>set []. snd p \<noteq> []" by simp
  next
    fix x :: 'b and rest :: "'b list" and al :: "('a \<times> 'b list) list"
    assume q: "\<forall>p\<in>set al. snd p \<noteq> []"
    show "\<forall>p\<in>set (?step x al). snd p \<noteq> []"
    proof
      fix p assume "p \<in> set (?step x al)"
      then have "p \<in> insert (keyFunc x, (case map_of al (keyFunc x) of None \<Rightarrow> [] | Some g \<Rightarrow> g) @ [x])
          (set al)"
        using alist_update_set by (fastforce simp: Let_def)
      then show "snd p \<noteq> []" using q by auto
    qed
  qed
  then show ?thesis using assms by (auto simp: groupBy_def)
qed

lemma for_each_succeeds:
  assumes "\<And>x s. x \<in> set xs \<Longrightarrow> \<exists>s'. f x s = Some (Inr s')"
  shows "\<exists>s'. for_each f xs s = Some (Inr s')"
  using assms
proof (induction xs arbitrary: s)
  case Nil
  then show ?case by simp
next
  case (Cons x xs)
  from Cons.prems[of x s] obtain s1 where s1: "f x s = Some (Inr s1)" by auto
  have "\<exists>s'. for_each f xs s1 = Some (Inr s')" by (rule Cons.IH) (simp add: Cons.prems)
  with s1 show ?case by (simp add: bind_result_def)
qed

lemma estimate_init_succeeds: "\<exists>e. estimate_init g options = Some (Inr e)"
proof -
  let ?e = "initializeNetworkRecords (new_Estimator g options)"
  let ?step = "\<lambda>(connectionId0, records) conns.
             bind_result (connectionForRecords ?e records)
               (\<lambda>connection. Some (Inr (conns(connectionId0 \<mapsto> connection))))"
  have "\<exists>conns. for_each ?step (groupBy (networkRecords ?e) connectionId) Map.empty
      = Some (Inr conns)"
  proof (rule for_each_succeeds)
    fix x :: "nat \<times> NetworkRecord list" and s :: "nat \<Rightarrow> TcpConnection option"
    assume x: "x \<in> set (groupBy (networkRecords ?e) connectionId)"
    obtain k grp where kg: "x = (k, grp)" by (cases x)
    with x have "grp \<noteq> []" using groupBy_groups_nonempty by fastforce
    then obtain r rs where "grp = r # rs" by (cases grp) auto
    then show "\<exists>s'. ?step x s = Some (Inr s')"
      using kg by (simp add: connectionForRecords_def bind_result_def Let_def)
  qed
  then show ?thesis
    by (auto simp: estimate_init_def initializeNetworkConnections_def bind_result_def Let_def)
qed

section \<open>A queue of nodes that are never started\<close>

lemma startNodeIfPossible_not_network:
  "\<not> is_network (graph e) n \<Longrightarrow> startNodeIfPossible t n e = e"
  by (cases "kind (node (graph e) n)") (simp_all add: startNodeIfPossible_def is_network_def)

lemma admit_not_network:
  "\<forall>n\<in>set xs. \<not> is_network (graph e) n \<Longrightarrow> fold (startNodeIfPossible t) xs e = e"
  by (induction xs) (simp_all add: startNodeIfPossible_not_network)

lemma idle_iteration:
  assumes "nodesInProcess e = []" "connectionsInUse e = []"
    "\<forall>n\<in>set (nodesInQueue e). \<not> is_network (graph e) n"
  shows "estimate_iteration e t = Some (Inr (e, js_add t PosInf))"
  using assms
  by (simp add: estimate_iteration_def admitQueuedNodes_def admit_not_network
        updateNetworkCapacity_def findNextNodeCompletionTime_def bind_result_def Let_def)

lemma idle_loop:
  assumes "nodesInProcess e = []" "connectionsInUse e = []"
    "\<forall>n\<in>set (nodesInQueue e). \<not> is_network (graph e) n" "nodesInQueue e \<noteq> []"
  shows "depth + k = 10000 \<Longrightarrow> estimate_loop e depth t = Some (Inl MaximumDepthExceeded)"
proof (induction k arbitrary: depth t)
  case 0
  then show ?case
    using assms(4) idle_iteration[OF assms(1,2,3)] by (subst estimate_loop.simps) simp
next
  case (Suc k)
  then have "estimate_loop e (depth + 1) (js_add t PosInf) = Some (Inl MaximumDepthExceeded)"
    by simp
  then show ?case
    using assms(4) idle_iteration[OF assms(1,2,3)] Suc.prems by (subst estimate_loop.simps) simp
qed

lemma estimate_not_network_root:
  assumes "\<not> is_network g (rootNode g)"
  shows "estimate g options = Some (Inl MaximumDepthExceeded)"
proof -
  from estimate_init_succeeds obtain e where e: "estimate_init g options = Some (Inr e)" by blast
  note st = estimate_init_state[OF e]
  have "estimate_loop e 0 (Num 0) = Some (Inl MaximumDepthExceeded)"
    by (rule idle_loop[where k = 10000]) (simp_all add: st assms)
  then show ?thesis using e by (simp add: estimate_def bind_result_def)
qed

lemma estimate_not_unsupported: "estimate g options \<noteq> Some (Inl Unsupported)"
proof -
  from estimate_init_succeeds obtain e where e: "estimate_init g options = Some (Inr e)" by blast
  have "estimate_loop e 0 (Num 0) \<noteq> Some (Inl Unsupported)"
    using estimate_loop_error[OF estimate_init_run_inv[OF e], of 0 "Num 0" Unsupported] by auto
  then show ?thesis using e by (simp add: estimate_def bind_result_def)
qed

text \<open>
  Claim C10. \<open>estimate\<close> never throws \<open>Unsupported\<close>: \<open>_startNodeIfPossible\<close> leaves the
  estimator as it is for a node that is not a \<open>NETWORK\<close> node, so every node in process,
  in every state of a run, is a \<open>NETWORK\<close> node. When a node that is not a \<open>NETWORK\<close> node
  is in the queue at a test of the main loop, \<open>estimate\<close> does not return a value; when
  the root node is such a node, \<open>estimate\<close> throws \<open>Maximum depth exceeded\<close>.
\<close>

theorem C10_unsupported_unreachable:
  "estimate g options \<noteq> Some (Inl Unsupported)
   \<and> (\<not> is_network (graph e0) n0 \<longrightarrow> startNodeIfPossible t0 n0 e0 = e0)
   \<and> (visited g options e \<longrightarrow> list_all (is_network g) (nodesInProcess e))
   \<and> (loop_head g options e' depth t \<and> n \<in> set (nodesInQueue e') \<and> \<not> is_network g n \<longrightarrow>
        (\<forall>v. estimate g options \<noteq> Some (Inr v)))
   \<and> (\<not> is_network g (rootNode g) \<longrightarrow> estimate g options = Some (Inl MaximumDepthExceeded))"
proof (intro conjI impI allI)
  show "estimate g options \<noteq> Some (Inl Unsupported)" by (rule estimate_not_unsupported)
next
  assume "\<not> is_network (graph e0) n0"
  then show "startNodeIfPossible t0 n0 e0 = e0" by (rule startNodeIfPossible_not_network)
next
  assume "visited g options e"
  from visited_run_inv[OF this] show "list_all (is_network g) (nodesInProcess e)"
    using in_flight_consistentD(1)[OF run_invD(1)] by (auto simp: run_config_def)
next
  fix v
  assume a: "loop_head g options e' depth t \<and> n \<in> set (nodesInQueue e') \<and> \<not> is_network g n"
  then have h: "loop_head g options e' depth t" by simp
  from loop_head_run_inv[OF h] have inv: "run_inv e'" and g: "graph e' = g"
    by (simp_all add: run_config_def)
  from estimate_loop_stuck[OF inv, of n depth t v] a g
  show "estimate g options \<noteq> Some (Inr v)" by (simp add: estimate_from_loop_head[OF h])
next
  assume "\<not> is_network g (rootNode g)"
  then show "estimate g options = Some (Inl MaximumDepthExceeded)" by (rule estimate_not_network_root)
qed

section \<open>Runs of \<open>estimate\<close> on the example inputs\<close>

theorem C10_unsupported_unreachable_witness:
  "\<exists>e. loop_head example_cpu_root example_no_options e 0 (Num 0)
     \<and> visited example_cpu_root example_no_options e
     \<and> 0 \<in> set (nodesInQueue e)
     \<and> \<not> is_network example_cpu_root 0
     \<and> \<not> is_network (graph e) 0
     \<and> \<not> is_network example_cpu_root (rootNode example_cpu_root)
     \<and> startNodeIfPossible (Num 0) 0 e = e
     \<and> list_all (is_network example_cpu_root) (nodesInProcess e)
     \<and> (\<forall>v. estimate example_cpu_root example_no_options \<noteq> Some (Inr v))
     \<and> estimate example_cpu_root example_no_options = Some (Inl MaximumDepthExceeded)
     \<and> estimate example_cpu_root example_no_options \<noteq> Some (Inl Unsupported)"
proof -
  from estimate_init_succeeds obtain e where
    i: "estimate_init example_cpu_root example_no_options = Some (Inr e)" by blast
  note st = estimate_init_state[OF i]
  have h: "loop_head example_cpu_root example_no_options e 0 (Num 0)"
    using i by (rule loop_head_init)
  then have v: "visited example_cpu_root example_no_options e" by (rule visited_head)
  have q: "0 \<in> set (nodesInQueue e)" using st(4) by (simp add: example_cpu_root_def)
  have c: "\<not> is_network example_cpu_root 0" "\<not> is_network (graph e) 0"
    "\<not> is_network example_cpu_root (rootNode example_cpu_root)"
    using st(1) by (simp_all add: is_network_def example_cpu_root_def)
  from C10_unsupported_unreachable[where g = example_cpu_root and options = example_no_options
      and e = e and e' = e and depth = 0 and t = "Num 0" and n = 0 and ?e0.0 = e and ?n0.0 = 0
      and ?t0.0 = "Num 0"] h v q c
  show ?thesis by blast
qed

text \<open>
  Claim C3 fails on the code: on the graph of one record whose measured response time is
  \<open>0\<close>, \<open>getResponseTime\<close> returns \<open>Infinity\<close> (\<open>0 || Infinity\<close>), and the connection is
  made with the default response time \<open>30\<close>, not with the measured \<open>0\<close>.
\<close>

theorem C3_zero_response_time_replaced:
  "getResponseTime \<lparr> connectionId = 1, transferSize = Num 1000, scheme = ''https'',
       timing = Some \<lparr> sendEnd = Num 5, receiveHeadersEnd = Num 5 \<rparr> \<rparr> = PosInf
   \<and> (\<exists>e c. estimate_init example_zero_response example_no_options = Some (Inr e)
          \<and> connections e 1 = Some c \<and> responseTime c = Num 30)"
  by (simp add: estimator_defs example_zero_response_def example_no_options_def calculate_defs)





section \<open>Calls of \<open>calculateTimeToDownload\<close> on finite numbers\<close>











section \<open>The invariant of a run on finite inputs\<close>














section \<open>One run of the body of the main loop on finite inputs\<close>







section \<open>The state with which the main loop starts, on finite inputs\<close>











section \<open>The overshoot of the nodes in process\<close>





















section \<open>More throughput on one connection\<close>




section \<open>A graph of one request\<close>











end
